theory Spec2Isabelle
  imports Main "HOL-Library.Word" "HOL-Library.List_Lexorder" "HOL-Library.Product_Lexorder"
begin

unbundle bit_operations_syntax

section \<open>Bytes, keys and the value cell\<close>

type_synonym byte = "8 word"

text \<open>
  Every way the Go code can stop without returning: the fatal assertions of the
  repository (\<open>AssertTrue\<close>, \<open>AssertTruef\<close> call \<open>log.Fatalf\<close>) and the run-time
  panics of Go (index or slice bounds out of range). \<open>BadPointer\<close> is a dereference
  of an arena offset at which no node was ever placed, or an access to a tower slot
  at or above the height of the node, which lies outside the bytes allocated for the
  node: the Go code would read or write whatever bytes are there, the model refuses
  to.
\<close>

datatype error =
    ArenaFull
  | AssertCopyLen
  | AssertLevelGtOne
  | AssertPrevNeNext
  | AssertEqualityBaseLevel
  | IndexOutOfRange
  | SliceBounds
  | MakeSliceLen
  | NilDeref
  | BadPointer

subsection \<open>key.go: SameKey, ParseKey, ParseTs\<close>

definition ParseKey :: "byte list \<Rightarrow> byte list" where
  "ParseKey key = (if length key < 8 then key else take (length key - 8) key)"

text \<open>
  \<open>bytes.Equal\<close> of the Go library compares lengths and contents; \<open>nil\<close> and the
  empty slice are equal.
\<close>

definition SameKey :: "byte list \<Rightarrow> byte list \<Rightarrow> bool" where
  "SameKey src dst =
     (if length src \<noteq> length dst then False else ParseKey src = ParseKey dst)"

text \<open>
  \<open>binary.BigEndian.Uint64\<close> of the Go library on a slice of (at least) 8 bytes:
  \<open>b[7] | b[6]<<8 | ... | b[0]<<56\<close>. \<open>ParseTs\<close> only calls it on a slice of
  exactly 8 bytes.
\<close>

definition BigEndianUint64 :: "byte list \<Rightarrow> 64 word" where
  "BigEndianUint64 b =
     (ucast (b ! 7) OR push_bit 8 (ucast (b ! 6)) OR push_bit 16 (ucast (b ! 5))
      OR push_bit 24 (ucast (b ! 4)) OR push_bit 32 (ucast (b ! 3))
      OR push_bit 40 (ucast (b ! 2)) OR push_bit 48 (ucast (b ! 1))
      OR push_bit 56 (ucast (b ! 0)))"

definition MaxUint64 :: "64 word" where
  "MaxUint64 = 18446744073709551615"

definition ParseTs :: "byte list \<Rightarrow> 64 word" where
  "ParseTs key =
     (if length key \<le> 8 then 0
      else MaxUint64 - BigEndianUint64 (drop (length key - 8) key))"

text \<open>The value of a byte string read as a big-endian number, as the words of the
  specification have it.\<close>

fun be_nat :: "byte list \<Rightarrow> nat" where
  "be_nat bs = foldl (\<lambda>a b. 256 * a + unat b) 0 bs"


text \<open>
  Modelled from the spec: \<open>CompareKeys\<close> is called by \<open>findNear\<close> and
  \<open>findSpliceForLevel\<close>, but its source is not among the files. The specification
  orders internal keys by the user key (ascending, bytewise) and then by the stored
  8-byte timestamp suffix (ascending); a key shorter than 8 bytes is a user key with
  no suffix. \<open>bytes_Compare\<close> is \<open>bytes.Compare\<close> of the Go library: -1, 0 or 1.
\<close>

fun bytes_Compare :: "byte list \<Rightarrow> byte list \<Rightarrow> int" where
  "bytes_Compare [] [] = 0"
| "bytes_Compare [] (y # ys) = - 1"
| "bytes_Compare (x # xs) [] = 1"
| "bytes_Compare (x # xs) (y # ys) =
     (if x < y then - 1 else if y < x then 1 else bytes_Compare xs ys)"

definition CompareKeys :: "byte list \<Rightarrow> byte list \<Rightarrow> int" where
  "CompareKeys key1 key2 =
     (let cmp = bytes_Compare (ParseKey key1) (ParseKey key2)
      in if cmp \<noteq> 0 then cmp
         else bytes_Compare (drop (length (ParseKey key1)) key1)
                            (drop (length (ParseKey key2)) key2))"

subsection \<open>entry.go: the value cell and its codec\<close>

record ValueStruct =
  Meta :: byte
  Value :: "byte list"
  ExpiresAt :: "64 word"
  Version :: "64 word"

definition empty_ValueStruct :: ValueStruct where
  "empty_ValueStruct = \<lparr>Meta = 0, Value = [], ExpiresAt = 0, Version = 0\<rparr>"

definition bindE :: "error + 'a \<Rightarrow> ('a \<Rightarrow> error + 'b) \<Rightarrow> error + 'b" where
  "bindE m f = (case m of Inl e \<Rightarrow> Inl e | Inr x \<Rightarrow> f x)"

text \<open>The loop of \<open>sizeVarint\<close>: count, shift by 7, stop at zero.\<close>

function sizeVarint_loop :: "64 word \<Rightarrow> nat \<Rightarrow> nat" where
  "sizeVarint_loop x k =
     (let k' = k + 1; x' = drop_bit 7 x
      in if x' = 0 then k' else sizeVarint_loop x' k')"
  by pat_completeness auto
termination
proof (relation "measure (\<lambda>(x, k). unat x)")
  show "wf (measure (\<lambda>(x :: 64 word, k :: nat). unat x))"
    by simp
next
  fix x :: "64 word" and k k' :: nat and x' :: "64 word"
  assume "x' = drop_bit 7 x" and nz: "x' \<noteq> 0"
  then have "unat x' = unat x div 2 ^ 7"
    by (simp add: drop_bit_eq_div unat_div)
  moreover have "unat x' \<noteq> 0"
    using nz by (simp add: unat_eq_0)
  ultimately have "unat x' < unat x"
    by (metis div_less_dividend div_0 gr0I numeral_One one_less_numeral_iff
        one_less_power semiring_norm(76) zero_neq_numeral)
  then show "((x', k'), (x, k)) \<in> measure (\<lambda>(x, k). unat x)"
    by simp
qed

definition sizeVarint :: "64 word \<Rightarrow> nat" where
  "sizeVarint x = sizeVarint_loop x 0"

definition EncodedSize :: "ValueStruct \<Rightarrow> 32 word" where
  "EncodedSize vs =
     (let sz = length (Value vs) + 1; enc = sizeVarint (ExpiresAt vs)
      in of_nat (sz + enc))"

text \<open>
  \<open>binary.PutUvarint(buf, x)\<close> of the Go library: seven bits per byte, least
  significant group first, the top bit set on every byte but the last; it panics when
  \<open>buf\<close> is too short. The function returns the buffer written and the index after
  the last byte.
\<close>

function PutUvarint_loop :: "byte list \<Rightarrow> nat \<Rightarrow> 64 word \<Rightarrow> error + (byte list \<times> nat)" where
  "PutUvarint_loop b i x =
     (if 0x80 \<le> x then
        (if i < length b
         then PutUvarint_loop (b[i := ucast x OR 0x80]) (i + 1) (drop_bit 7 x)
         else Inl IndexOutOfRange)
      else if i < length b then Inr (b[i := ucast x], i + 1)
      else Inl IndexOutOfRange)"
  by pat_completeness auto
termination
proof (relation "measure (\<lambda>(b, i, x). unat x)")
  show "wf (measure (\<lambda>(b :: byte list, i :: nat, x :: 64 word). unat x))"
    by simp
next
  fix b :: "byte list" and i :: nat and x :: "64 word"
  assume "0x80 \<le> x"
  then have "128 \<le> unat x"
    by (simp add: word_le_nat_alt)
  then have "unat x div 2 ^ 7 < unat x"
    by simp
  then show "((b[i := ucast x OR 0x80], i + 1, drop_bit 7 x), (b, i, x))
      \<in> measure (\<lambda>(b, i, x). unat x)"
    by (simp add: drop_bit_eq_div unat_div)
qed

definition PutUvarint :: "byte list \<Rightarrow> 64 word \<Rightarrow> error + (byte list \<times> nat)" where
  "PutUvarint b x = PutUvarint_loop b 0 x"

text \<open>
  \<open>binary.Uvarint(buf)\<close> of the Go library: the value and the number of bytes read;
  \<open>(0, 0)\<close> when the buffer ends early, \<open>(0, -(i+1))\<close> on a 64-bit overflow.
\<close>

fun Uvarint_loop :: "byte list \<Rightarrow> nat \<Rightarrow> 64 word \<Rightarrow> nat \<Rightarrow> 64 word \<times> int" where
  "Uvarint_loop [] i x s = (0, 0)"
| "Uvarint_loop (b # bs) i x s =
     (if i = 10 then (0, - (int i + 1))
      else if b < 0x80 then
        (if i = 9 \<and> 1 < b then (0, - (int i + 1))
         else (x OR push_bit s (ucast b), int i + 1))
      else Uvarint_loop bs (i + 1) (x OR push_bit s (ucast (b AND 0x7f))) (s + 7))"

definition Uvarint :: "byte list \<Rightarrow> 64 word \<times> int" where
  "Uvarint b = Uvarint_loop b 0 0 0"

text \<open>
  \<open>EncodeValue(b)\<close> writes into the slice \<open>b\<close> and returns the number of bytes
  written; the model returns the slice as written, too. \<open>copy\<close> copies as many bytes
  as fit and does not panic.
\<close>

definition EncodeValue :: "ValueStruct \<Rightarrow> byte list \<Rightarrow> error + (byte list \<times> 32 word)" where
  "EncodeValue vs b =
     (if length b = 0 then Inl IndexOutOfRange
      else
        let b0 = b[0 := Meta vs] in
        bindE (PutUvarint (drop 1 b0) (ExpiresAt vs)) (\<lambda>(rest, sz).
          let b1 = take 1 b0 @ rest;
              dst = drop (1 + sz) b1;
              cnt = min (length dst) (length (Value vs))
          in Inr (take (1 + sz) b1 @ take cnt (Value vs) @ drop cnt dst,
                  of_nat (1 + sz + cnt))))"

text \<open>
  \<open>DecodeValue(buf)\<close> sets \<open>Meta\<close>, \<open>ExpiresAt\<close> and \<open>Value\<close> of its receiver and
  leaves \<open>Version\<close> as it is. \<open>buf[1+sz:]\<close> panics when \<open>1+sz\<close> is negative.
\<close>

definition DecodeValue :: "ValueStruct \<Rightarrow> byte list \<Rightarrow> error + ValueStruct" where
  "DecodeValue vs b =
     (if length b = 0 then Inl IndexOutOfRange
      else
        let (e, sz) = Uvarint (drop 1 b) in
        if 1 + sz < 0 \<or> int (length b) < 1 + sz then Inl SliceBounds
        else Inr (vs\<lparr>Meta := b ! 0, ExpiresAt := e, Value := drop (nat (1 + sz)) b\<rparr>))"


record Entry =
  Key :: "byte list"
  Value :: "byte list"
  ExpiresAt :: "64 word"
  Meta :: byte
  Version :: "64 word"
  Offset :: "32 word"
  Hlen :: int
  ValThreshold :: int

section \<open>The arena\<close>

definition maxHeight :: nat where
  "maxHeight = 20"

text \<open>\<open>heightIncrease = math.MaxUint32 / 3\<close>.\<close>

definition heightIncrease :: "32 word" where
  "heightIncrease = 1431655765"

definition offsetSize :: nat where
  "offsetSize = 4"

definition nodeAlign :: nat where
  "nodeAlign = 7"

text \<open>\<open>MaxNodeSize = unsafe.Sizeof(node{})\<close>: 8 + 4 + 2 + 2 + 20 * 4 bytes.\<close>

definition MaxNodeSize :: nat where
  "MaxNodeSize = 96"

text \<open>
  The node of the Go code (\<open>value\<close> and \<open>height\<close> carry the prefix \<open>node_\<close> here).
  The tower is an array of \<open>maxHeight\<close> offsets.
\<close>

record node =
  node_value :: "64 word"
  keyOffset :: "32 word"
  keySize :: "16 word"
  node_height :: "16 word"
  tower :: "32 word list"

definition zero_node :: node where
  "zero_node = \<lparr>node_value = 0, keyOffset = 0, keySize = 0, node_height = 0,
                 tower = replicate maxHeight 0\<rparr>"

text \<open>
  The arena of the Go code: the cursor \<open>n\<close>, \<open>shouldGrow\<close> and the byte buffer
  \<open>buf\<close>. The Go code reinterprets the bytes at an offset as a \<open>node\<close> through an
  unsafe pointer; the model keeps these typed views in \<open>arena_nodes\<close>, a store from
  offsets to nodes, beside the bytes of keys and values in \<open>arena_buf\<close>. A pointer
  \<open>*node\<close> is the offset of the node, \<open>nil\<close> is 0.
\<close>

record Arena =
  arena_n :: "32 word"
  shouldGrow :: bool
  arena_buf :: "byte list"
  arena_nodes :: "32 word \<rightharpoonup> node"

definition newArena :: "int \<Rightarrow> error + Arena" where
  "newArena sz =
     (if sz < 0 then Inl MakeSliceLen
      else Inr \<lparr>arena_n = 1, shouldGrow = False, arena_buf = replicate (nat sz) 0,
                arena_nodes = Map.empty\<rparr>)"

definition allocate :: "Arena \<Rightarrow> 32 word \<Rightarrow> error + (Arena \<times> 32 word)" where
  "allocate a sz =
     (let offset = arena_n a + sz; a1 = a\<lparr>arena_n := offset\<rparr> in
      if \<not> shouldGrow a then
        (if unat offset \<le> length (arena_buf a) then Inr (a1, offset - sz)
         else Inl ArenaFull)
      else if int (length (arena_buf a)) - int MaxNodeSize < int (unat offset) then
        (let growBy0 = (of_nat (length (arena_buf a)) :: 32 word);
             growBy1 = (if 2 ^ 30 < growBy0 then 2 ^ 30 else growBy0);
             growBy = (if growBy1 < sz then sz else growBy1)
         in Inr (a1\<lparr>arena_buf := arena_buf a @ replicate (unat growBy) 0\<rparr>, offset - sz))
      else Inr (a1, offset - sz))"

text \<open>A slice expression \<open>b[lo:hi]\<close> panics unless \<open>lo \<le> hi \<le> len(b)\<close>.\<close>

definition slice :: "byte list \<Rightarrow> nat \<Rightarrow> nat \<Rightarrow> error + byte list" where
  "slice b lo hi =
     (if lo \<le> hi \<and> hi \<le> length b then Inr (take (hi - lo) (drop lo b))
      else Inl SliceBounds)"

text \<open>Writing \<open>bs\<close> into \<open>b\<close> from index \<open>lo\<close> on (the caller has checked the bounds).\<close>

definition write_at :: "byte list \<Rightarrow> nat \<Rightarrow> byte list \<Rightarrow> byte list" where
  "write_at b lo bs = take lo b @ bs @ drop (lo + length bs) b"

definition putKey :: "Arena \<Rightarrow> byte list \<Rightarrow> error + (Arena \<times> 32 word)" where
  "putKey a key =
     (let keySz = (of_nat (length key) :: 32 word) in
      bindE (allocate a keySz) (\<lambda>(a1, offset).
      bindE (slice (arena_buf a1) (unat offset) (unat (offset + keySz))) (\<lambda>dst.
        let cnt = min (length dst) (length key) in
        if length key \<noteq> cnt then Inl AssertCopyLen
        else Inr (a1\<lparr>arena_buf := write_at (arena_buf a1) (unat offset) (take cnt key)\<rparr>,
                  offset))))"

definition putVal :: "Arena \<Rightarrow> ValueStruct \<Rightarrow> error + (Arena \<times> 32 word)" where
  "putVal a v =
     (let l = EncodedSize v in
      bindE (allocate a l) (\<lambda>(a1, offset).
      bindE (slice (arena_buf a1) (unat offset) (length (arena_buf a1))) (\<lambda>dst.
      bindE (EncodeValue v dst) (\<lambda>(dst', cnt).
        Inr (a1\<lparr>arena_buf := write_at (arena_buf a1) (unat offset) dst'\<rparr>, offset)))))"

definition getNode :: "Arena \<Rightarrow> 32 word \<Rightarrow> error + 32 word" where
  "getNode a offset =
     (if offset = 0 then Inr 0
      else if unat offset < length (arena_buf a) then Inr offset
      else Inl IndexOutOfRange)"

definition getKey :: "Arena \<Rightarrow> 32 word \<Rightarrow> 16 word \<Rightarrow> error + byte list" where
  "getKey a offset sz = slice (arena_buf a) (unat offset) (unat (offset + ucast sz))"

definition getVal :: "Arena \<Rightarrow> 32 word \<Rightarrow> 32 word \<Rightarrow> error + ValueStruct" where
  "getVal a offset sz =
     bindE (slice (arena_buf a) (unat offset) (unat (offset + sz)))
       (DecodeValue empty_ValueStruct)"

text \<open>
  \<open>putNode\<close> returns the offset rounded up to a multiple of 8. The bytes there have
  never been written and a Go buffer starts out as zeros, so the node seen at the
  new offset is the zero node: the model enters it into the typed store. The
  allocation is cut short after the tower slot \<open>height - 1\<close>, so that the slots from
  \<open>height\<close> on overlap what is allocated next; the typed store keeps all \<open>maxHeight\<close>
  slots, and the accessors of the tower below refuse the slots from \<open>height\<close> on.
\<close>

definition putNode :: "Arena \<Rightarrow> nat \<Rightarrow> error + (Arena \<times> 32 word)" where
  "putNode a h =
     (let unusedSize = (int maxHeight - int h) * int offsetSize;
          l = (of_int (int MaxNodeSize - unusedSize + int nodeAlign) :: 32 word)
      in bindE (allocate a l) (\<lambda>(a1, k).
           let m = (k + of_nat nodeAlign) AND NOT (of_nat nodeAlign)
           in Inr (a1\<lparr>arena_nodes := (arena_nodes a1)(m \<mapsto> zero_node)\<rparr>, m)))"

definition arena_size :: "Arena \<Rightarrow> int" where
  "arena_size a = uint (arena_n a)"

definition getNodeOffset :: "Arena \<Rightarrow> 32 word \<Rightarrow> 32 word" where
  "getNodeOffset a nd = (if nd = 0 then 0 else nd)"

section \<open>Nodes\<close>

text \<open>Reading and writing the node behind a pointer.\<close>

definition load :: "Arena \<Rightarrow> 32 word \<Rightarrow> error + node" where
  "load a p =
     (if p = 0 then Inl NilDeref
      else case arena_nodes a p of None \<Rightarrow> Inl BadPointer | Some nd \<Rightarrow> Inr nd)"

definition store :: "Arena \<Rightarrow> 32 word \<Rightarrow> node \<Rightarrow> Arena" where
  "store a p nd = a\<lparr>arena_nodes := (arena_nodes a)(p \<mapsto> nd)\<rparr>"

definition encodeValue :: "32 word \<Rightarrow> 32 word \<Rightarrow> 64 word" where
  "encodeValue valOffset valSize = push_bit 32 (ucast valSize) OR ucast valOffset"

definition decodeValue :: "64 word \<Rightarrow> 32 word \<times> 32 word" where
  "decodeValue w = (ucast w, ucast (drop_bit 32 w))"

definition newNode :: "Arena \<Rightarrow> byte list \<Rightarrow> ValueStruct \<Rightarrow> nat \<Rightarrow> error + (Arena \<times> 32 word)" where
  "newNode a key v h =
     bindE (putNode a h) (\<lambda>(a1, nodeOffset).
     bindE (putKey a1 key) (\<lambda>(a2, ko).
     bindE (putVal a2 v) (\<lambda>(a3, vo).
       let val = encodeValue vo (EncodedSize v) in
       bindE (getNode a3 nodeOffset) (\<lambda>p.
       bindE (load a3 p) (\<lambda>nd.
         Inr (store a3 p (nd\<lparr>keyOffset := ko, keySize := of_nat (length key),
                               node_height := of_nat h, node_value := val\<rparr>), p))))))"

definition getValueOffset :: "Arena \<Rightarrow> 32 word \<Rightarrow> error + (32 word \<times> 32 word)" where
  "getValueOffset a p = bindE (load a p) (\<lambda>nd. Inr (decodeValue (node_value nd)))"

definition node_key :: "Arena \<Rightarrow> 32 word \<Rightarrow> error + byte list" where
  "node_key a p = bindE (load a p) (\<lambda>nd. getKey a (keyOffset nd) (keySize nd))"

definition setValue :: "Arena \<Rightarrow> 32 word \<Rightarrow> 64 word \<Rightarrow> error + Arena" where
  "setValue a p vo = bindE (load a p) (\<lambda>nd. Inr (store a p (nd\<lparr>node_value := vo\<rparr>)))"

definition getNextOffset :: "Arena \<Rightarrow> 32 word \<Rightarrow> nat \<Rightarrow> error + 32 word" where
  "getNextOffset a p h =
     bindE (load a p) (\<lambda>nd.
       if \<not> h < length (tower nd) then Inl IndexOutOfRange
       else if \<not> h < unat (node_height nd) then Inl BadPointer
       else Inr (tower nd ! h))"

definition casNextOffset :: "Arena \<Rightarrow> 32 word \<Rightarrow> nat \<Rightarrow> 32 word \<Rightarrow> 32 word \<Rightarrow> error + (Arena \<times> bool)" where
  "casNextOffset a p h old val =
     bindE (load a p) (\<lambda>nd.
       if \<not> h < length (tower nd) then Inl IndexOutOfRange
       else if \<not> h < unat (node_height nd) then Inl BadPointer
       else if tower nd ! h = old
         then Inr (store a p (nd\<lparr>tower := (tower nd)[h := val]\<rparr>), True)
         else Inr (a, False))"

text \<open>The plain store \<open>x.tower[i] = v\<close>.\<close>

definition setTower :: "Arena \<Rightarrow> 32 word \<Rightarrow> nat \<Rightarrow> 32 word \<Rightarrow> error + Arena" where
  "setTower a p h v =
     bindE (load a p) (\<lambda>nd.
       if \<not> h < length (tower nd) then Inl IndexOutOfRange
       else if \<not> h < unat (node_height nd) then Inl BadPointer
       else Inr (store a p (nd\<lparr>tower := (tower nd)[h := v]\<rparr>)))"

definition getVs :: "Arena \<Rightarrow> 32 word \<Rightarrow> error + ValueStruct" where
  "getVs a p = bindE (getValueOffset a p) (\<lambda>(valOffset, valSize). getVal a valOffset valSize)"

definition getNext :: "Arena \<Rightarrow> 32 word \<Rightarrow> nat \<Rightarrow> error + 32 word" where
  "getNext a nd h = bindE (getNextOffset a nd h) (getNode a)"


section \<open>The skiplist\<close>

text \<open>
  The skiplist of the Go code. \<open>height\<close> is an \<open>int32\<close> that only ever holds 1 or a
  result of \<open>randomHeight\<close>; the model keeps it as a natural number. \<open>ref\<close> is an
  \<open>int32\<close>, read as a signed number. \<open>arena\<close> is a pointer, \<open>None\<close> is \<open>nil\<close>.
  \<open>OnClose\<close> is a callback, a Go closure: it acts on a world \<open>'w\<close> outside the
  skiplist, and it may look at the list it belongs to. The model hands it the count
  and the arena pointer of the list as they are at the moment of the call, so that
  what the callback does can depend on whether the arena is still in place.
\<close>

record 'w Skiplist =
  height :: nat
  headOffset :: "32 word"
  ref :: "32 word"
  arena :: "Arena option"
  OnClose :: "(32 word \<Rightarrow> Arena option \<Rightarrow> 'w \<Rightarrow> 'w) option"

definition IncrRef :: "'w Skiplist \<Rightarrow> 'w Skiplist" where
  "IncrRef s = s\<lparr>ref := ref s + 1\<rparr>"

definition DecrRef :: "'w Skiplist \<Rightarrow> 'w \<Rightarrow> 'w Skiplist \<times> 'w" where
  "DecrRef s w =
     (let newRef = ref s - 1; s1 = s\<lparr>ref := newRef\<rparr> in
      if 0 <s newRef then (s1, w)
      else
        let w1 = (case OnClose s1 of None \<Rightarrow> w | Some f \<Rightarrow> f (ref s1) (arena s1) w)
        in (s1\<lparr>arena := None\<rparr>, w1))"

definition NewSkiplist :: "int \<Rightarrow> error + 'w Skiplist" where
  "NewSkiplist arenaSize =
     bindE (newArena arenaSize) (\<lambda>a.
     bindE (newNode a [] empty_ValueStruct maxHeight) (\<lambda>(a1, head).
       let ho = getNodeOffset a1 head in
       Inr \<lparr>height = 1, headOffset = ho, ref = 1, arena = Some a1, OnClose = None\<rparr>))"

text \<open>
  \<open>FastRand\<close> is the runtime's random source; \<open>rnd k\<close> is what its \<open>k\<close>-th call
  returns during one \<open>randomHeight\<close>.
\<close>

function randomHeight_loop :: "(nat \<Rightarrow> 32 word) \<Rightarrow> nat \<Rightarrow> nat \<Rightarrow> nat" where
  "randomHeight_loop rnd h k =
     (if h < maxHeight \<and> rnd k \<le> heightIncrease then randomHeight_loop rnd (h + 1) (k + 1)
      else h)"
  by pat_completeness auto
termination
  by (relation "measure (\<lambda>(rnd, h, k). maxHeight - h)") auto

definition randomHeight :: "(nat \<Rightarrow> 32 word) \<Rightarrow> nat" where
  "randomHeight rnd = randomHeight_loop rnd 1 0"

definition getHeight :: "'w Skiplist \<Rightarrow> nat" where
  "getHeight s = height s"

text \<open>
  The loops of the skiplist follow offsets through the arena and need not end on an
  arbitrary arena (a tower may point back): they are partial functions, \<open>None\<close> is a
  loop that never returns. \<open>hp\<close> is the pointer \<open>s.getHead()\<close>, \<open>lessp\<close> the
  parameter \<open>less\<close>.
\<close>

partial_function (option) findNear_loop ::
  "Arena \<Rightarrow> 32 word \<Rightarrow> byte list \<Rightarrow> bool \<Rightarrow> bool \<Rightarrow> 32 word \<Rightarrow> nat
   \<Rightarrow> (error + (32 word \<times> bool)) option" where
  [code]: "findNear_loop a hp key lessp allowEqual x level =
     (case getNext a x level of
        Inl e \<Rightarrow> Some (Inl e)
      | Inr next \<Rightarrow>
          if next = 0 then
            (if 0 < level then findNear_loop a hp key lessp allowEqual x (level - 1)
             else if \<not> lessp then Some (Inr (0, False))
             else if x = hp then Some (Inr (0, False))
             else Some (Inr (x, False)))
          else
            (case node_key a next of
               Inl e \<Rightarrow> Some (Inl e)
             | Inr nextKey \<Rightarrow>
                 let cmp = CompareKeys key nextKey in
                 if 0 < cmp then findNear_loop a hp key lessp allowEqual next level
                 else if cmp = 0 then
                   (if allowEqual then Some (Inr (next, True))
                    else if \<not> lessp then
                      (case getNext a next 0 of
                         Inl e \<Rightarrow> Some (Inl e)
                       | Inr nn \<Rightarrow> Some (Inr (nn, False)))
                    else if 0 < level then findNear_loop a hp key lessp allowEqual x (level - 1)
                    else if x = hp then Some (Inr (0, False))
                    else Some (Inr (x, False)))
                 else
                   (if 0 < level then findNear_loop a hp key lessp allowEqual x (level - 1)
                    else if \<not> lessp then Some (Inr (next, False))
                    else if x = hp then Some (Inr (0, False))
                    else Some (Inr (x, False)))))"

definition findNear ::
  "'w Skiplist \<Rightarrow> byte list \<Rightarrow> bool \<Rightarrow> bool \<Rightarrow> (error + (32 word \<times> bool)) option" where
  "findNear s key lessp allowEqual =
     (case arena s of
        None \<Rightarrow> Some (Inl NilDeref)
      | Some a \<Rightarrow>
          (case getNode a (headOffset s) of
             Inl e \<Rightarrow> Some (Inl e)
           | Inr x \<Rightarrow>
               if getHeight s = 0 then Some (Inl IndexOutOfRange)
               else findNear_loop a x key lessp allowEqual x (getHeight s - 1)))"

partial_function (option) findSpliceForLevel ::
  "Arena \<Rightarrow> byte list \<Rightarrow> 32 word \<Rightarrow> nat \<Rightarrow> (error + (32 word \<times> 32 word)) option" where
  [code]: "findSpliceForLevel a key before level =
     (case getNode a before of
        Inl e \<Rightarrow> Some (Inl e)
      | Inr beforeNode \<Rightarrow>
          (case getNextOffset a beforeNode level of
             Inl e \<Rightarrow> Some (Inl e)
           | Inr next \<Rightarrow>
               (case getNode a next of
                  Inl e \<Rightarrow> Some (Inl e)
                | Inr nextNode \<Rightarrow>
                    if nextNode = 0 then Some (Inr (before, next))
                    else
                      (case node_key a nextNode of
                         Inl e \<Rightarrow> Some (Inl e)
                       | Inr nextKey \<Rightarrow>
                           let cmp = CompareKeys key nextKey in
                           if cmp = 0 then Some (Inr (next, next))
                           else if cmp < 0 then Some (Inr (before, next))
                           else findSpliceForLevel a key next level))))"

text \<open>
  The block of \<open>Add\<close> that overwrites the value of the node \<open>p\<close> found with an equal
  key (it stands twice in the Go code).
\<close>

definition Add_overwrite :: "Arena \<Rightarrow> ValueStruct \<Rightarrow> 32 word \<Rightarrow> error + Arena" where
  "Add_overwrite a v p =
     bindE (putVal a v) (\<lambda>(a1, vo).
       let encValue = encodeValue vo (EncodedSize v) in
       bindE (getNode a1 p) (\<lambda>prevNode. setValue a1 prevNode encValue))"

text \<open>
  The first loop of \<open>Add\<close>, \<open>for i := listHeight - 1; i >= 0; i--\<close>; the argument
  counts \<open>i + 1\<close>. The result tells the level at which an equal key was found, if any.
\<close>

fun Add_descend ::
  "Arena \<Rightarrow> byte list \<Rightarrow> 32 word list \<Rightarrow> 32 word list \<Rightarrow> nat
   \<Rightarrow> (error + (32 word list \<times> 32 word list \<times> nat option)) option" where
  "Add_descend a key prev next 0 = Some (Inr (prev, next, None))"
| "Add_descend a key prev next (Suc i) =
     (case findSpliceForLevel a key (prev ! (i + 1)) i of
        None \<Rightarrow> None
      | Some (Inl e) \<Rightarrow> Some (Inl e)
      | Some (Inr (p, q)) \<Rightarrow>
          let prev1 = prev[i := p]; next1 = next[i := q] in
          if p = q then Some (Inr (prev1, next1, Some i))
          else Add_descend a key prev1 next1 i)"

text \<open>
  The loop that raises \<open>s.height\<close> by compare-and-swap. In a sequential run the
  swap finds the value just read.
\<close>

function Add_raise_height :: "'w Skiplist \<Rightarrow> nat \<Rightarrow> nat \<Rightarrow> 'w Skiplist" where
  "Add_raise_height s h listHeight =
     (if listHeight < h then
        (if height s = listHeight then s\<lparr>height := h\<rparr>
         else Add_raise_height s h (getHeight s))
      else s)"
  by pat_completeness auto
termination
  by (relation "measure (\<lambda>(s, h, listHeight). if height s = listHeight then 0 else 1)")
     (auto simp: getHeight_def)

text \<open>
  The inner loop \<open>for { ... }\<close> of \<open>Add\<close> at level \<open>i\<close>. The last component of the
  result is true when the loop left \<open>Add\<close> through the overwrite of an equal key.
\<close>

partial_function (option) Add_link_level ::
  "Arena \<Rightarrow> 32 word \<Rightarrow> byte list \<Rightarrow> ValueStruct \<Rightarrow> 32 word \<Rightarrow> nat \<Rightarrow> 32 word list \<Rightarrow> 32 word list
   \<Rightarrow> (error + (Arena \<times> 32 word list \<times> 32 word list \<times> bool)) option" where
  [code]: "Add_link_level a ho key v x i prev next =
     (case getNode a (prev ! i) of
        Inl e \<Rightarrow> Some (Inl e)
      | Inr pn \<Rightarrow>
         (case (if pn = 0 then
                  (if \<not> 1 < i then Some (Inl AssertLevelGtOne)
                   else
                     (case findSpliceForLevel a key ho i of
                        None \<Rightarrow> None
                      | Some (Inl e) \<Rightarrow> Some (Inl e)
                      | Some (Inr (p, q)) \<Rightarrow>
                          if \<not> p \<noteq> q then Some (Inl AssertPrevNeNext)
                          else Some (Inr (prev[i := p], next[i := q]))))
                else Some (Inr (prev, next))) of
            None \<Rightarrow> None
          | Some (Inl e) \<Rightarrow> Some (Inl e)
          | Some (Inr (prev1, next1)) \<Rightarrow>
             (case setTower a x i (next1 ! i) of
                Inl e \<Rightarrow> Some (Inl e)
              | Inr a1 \<Rightarrow>
                 (case getNode a1 (prev1 ! i) of
                    Inl e \<Rightarrow> Some (Inl e)
                  | Inr pnode \<Rightarrow>
                     (case casNextOffset a1 pnode i (next1 ! i) (getNodeOffset a1 x) of
                        Inl e \<Rightarrow> Some (Inl e)
                      | Inr (a2, ok) \<Rightarrow>
                          if ok then Some (Inr (a2, prev1, next1, False))
                          else
                            (case findSpliceForLevel a2 key (prev1 ! i) i of
                               None \<Rightarrow> None
                             | Some (Inl e) \<Rightarrow> Some (Inl e)
                             | Some (Inr (p, q)) \<Rightarrow>
                                 let prev2 = prev1[i := p]; next2 = next1[i := q] in
                                 if p = q then
                                   (if i \<noteq> 0 then Some (Inl AssertEqualityBaseLevel)
                                    else
                                      (case Add_overwrite a2 v (prev2 ! i) of
                                         Inl e \<Rightarrow> Some (Inl e)
                                       | Inr a3 \<Rightarrow> Some (Inr (a3, prev2, next2, True))))
                                 else Add_link_level a2 ho key v x i prev2 next2))))))"

text \<open>The loop \<open>for i := 0; i < height; i++\<close> of \<open>Add\<close>.\<close>

function Add_link ::
  "Arena \<Rightarrow> 32 word \<Rightarrow> byte list \<Rightarrow> ValueStruct \<Rightarrow> 32 word \<Rightarrow> nat \<Rightarrow> nat \<Rightarrow> 32 word list \<Rightarrow> 32 word list
   \<Rightarrow> (error + Arena) option" where
  "Add_link a ho key v x h i prev next =
     (if i < h then
        (case Add_link_level a ho key v x i prev next of
           None \<Rightarrow> None
         | Some (Inl e) \<Rightarrow> Some (Inl e)
         | Some (Inr (a1, prev1, next1, returned)) \<Rightarrow>
             if returned then Some (Inr a1)
             else Add_link a1 ho key v x h (i + 1) prev1 next1)
      else Some (Inr a))"
  by pat_completeness auto
termination
  by (relation "measure (\<lambda>(a, ho, key, v, x, h, i, prev, next). h - i)") auto

definition Add :: "'w Skiplist \<Rightarrow> Entry \<Rightarrow> (nat \<Rightarrow> 32 word) \<Rightarrow> (error + 'w Skiplist) option" where
  "Add s e rnd =
     (case arena s of
        None \<Rightarrow> Some (Inl NilDeref)
      | Some a \<Rightarrow>
          let key = Key e;
              v = \<lparr>ValueStruct.Meta = Meta e, ValueStruct.Value = Value e,
                   ValueStruct.ExpiresAt = ExpiresAt e, ValueStruct.Version = Version e\<rparr>;
              listHeight = getHeight s
          in
          if maxHeight < listHeight then Some (Inl IndexOutOfRange)
          else
            let prev = (replicate (maxHeight + 1) 0)[listHeight := headOffset s];
                next = replicate (maxHeight + 1) 0
            in
            (case Add_descend a key prev next listHeight of
               None \<Rightarrow> None
             | Some (Inl err) \<Rightarrow> Some (Inl err)
             | Some (Inr (prev1, next1, Some i)) \<Rightarrow>
                 (case Add_overwrite a v (prev1 ! i) of
                    Inl err \<Rightarrow> Some (Inl err)
                  | Inr a1 \<Rightarrow> Some (Inr (s\<lparr>arena := Some a1\<rparr>)))
             | Some (Inr (prev1, next1, None)) \<Rightarrow>
                 let h = randomHeight rnd in
                 (case newNode a key v h of
                    Inl err \<Rightarrow> Some (Inl err)
                  | Inr (a1, x) \<Rightarrow>
                      let s1 = Add_raise_height (s\<lparr>arena := Some a1\<rparr>) h (getHeight s) in
                      (case Add_link a1 (headOffset s) key v x h 0 prev1 next1 of
                         None \<Rightarrow> None
                       | Some (Inl err) \<Rightarrow> Some (Inl err)
                       | Some (Inr a2) \<Rightarrow> Some (Inr (s1\<lparr>arena := Some a2\<rparr>))))))"

definition Search :: "'w Skiplist \<Rightarrow> byte list \<Rightarrow> (error + ValueStruct) option" where
  "Search s key =
     (case findNear s key False True of
        None \<Rightarrow> None
      | Some (Inl e) \<Rightarrow> Some (Inl e)
      | Some (Inr (p, uu)) \<Rightarrow>
          if p = 0 then Some (Inr empty_ValueStruct)
          else
            (case arena s of
               None \<Rightarrow> Some (Inl NilDeref)
             | Some a \<Rightarrow>
                 Some (bindE (load a p) (\<lambda>nd.
                       bindE (getKey a (keyOffset nd) (keySize nd)) (\<lambda>nextKey.
                         if \<not> SameKey key nextKey then Inr empty_ValueStruct
                         else
                           bindE (getValueOffset a p) (\<lambda>(valOffset, valSize).
                           bindE (getVal a valOffset valSize) (\<lambda>vs.
                             Inr (vs\<lparr>ValueStruct.ExpiresAt := ParseTs nextKey\<rparr>))))))))"

record SkipListIterator =
  it_n :: "32 word"

text \<open>
  An iterator points to its list; the model passes the list to the operations of the
  iterator and returns it where they change it.
\<close>

definition NewSkipListIterator :: "'w Skiplist \<Rightarrow> 'w Skiplist \<times> SkipListIterator" where
  "NewSkipListIterator s = (IncrRef s, \<lparr>it_n = 0\<rparr>)"

definition Close :: "SkipListIterator \<Rightarrow> 'w Skiplist \<Rightarrow> 'w \<Rightarrow> 'w Skiplist \<times> 'w" where
  "Close it s w = DecrRef s w"


section \<open>Definitions that follow the words of the specification\<close>

text \<open>
  The variable-length encoding of a 64-bit number: groups of seven bits, least
  significant first, the top bit of a byte set when another byte follows.
\<close>

function uvarint :: "64 word \<Rightarrow> byte list" where
  "uvarint x = (if x < 0x80 then [ucast x] else (ucast x OR 0x80) # uvarint (drop_bit 7 x))"
  by pat_completeness auto
termination
proof (relation "measure unat")
  show "wf (measure (unat :: 64 word \<Rightarrow> nat))"
    by simp
next
  fix x :: "64 word"
  assume "\<not> x < 0x80"
  then have "128 \<le> unat x"
    by (simp add: word_less_nat_alt)
  then have "unat x div 2 ^ 7 < unat x"
    by simp
  then show "(drop_bit 7 x, x) \<in> measure unat"
    by (simp add: drop_bit_eq_div unat_div)
qed

text \<open>The encoding of a value cell: \<open>Meta\<close>, the varint of \<open>ExpiresAt\<close>, the value bytes.\<close>

definition encoded :: "ValueStruct \<Rightarrow> byte list" where
  "encoded v = ValueStruct.Meta v # uvarint (ValueStruct.ExpiresAt v) @ ValueStruct.Value v"

section \<open>Executions\<close>

text \<open>
  A sequential execution is a list of calls on one skiplist. \<open>OpAdd\<close> carries the
  entry and the random source of that call. The world \<open>'w\<close> is what \<open>OnClose\<close> acts
  on. An execution stops at the first call that does not return.
\<close>

datatype opn =
    OpAdd Entry "nat \<Rightarrow> 32 word"
  | OpNewIterator
  | OpClose
  | OpIncrRef
  | OpDecrRef

fun step :: "'w Skiplist \<times> 'w \<Rightarrow> opn \<Rightarrow> (error + 'w Skiplist \<times> 'w) option" where
  "step (s, w) (OpAdd e rnd) =
     (case Add s e rnd of
        None \<Rightarrow> None
      | Some (Inl err) \<Rightarrow> Some (Inl err)
      | Some (Inr s') \<Rightarrow> Some (Inr (s', w)))"
| "step (s, w) OpNewIterator = Some (Inr (fst (NewSkipListIterator s), w))"
| "step (s, w) OpClose = Some (Inr (Close \<lparr>it_n = 0\<rparr> s w))"
| "step (s, w) OpIncrRef = Some (Inr (IncrRef s, w))"
| "step (s, w) OpDecrRef = Some (Inr (DecrRef s w))"

fun exec :: "'w Skiplist \<times> 'w \<Rightarrow> opn list \<Rightarrow> (error + 'w Skiplist \<times> 'w) option" where
  "exec c [] = Some (Inr c)"
| "exec c (x # xs) =
     (case step c x of
        None \<Rightarrow> None
      | Some (Inl err) \<Rightarrow> Some (Inl err)
      | Some (Inr c') \<Rightarrow> exec c' xs)"


section \<open>Concrete lists used to exercise the theorems\<close>

definition mkEntry :: "byte list \<Rightarrow> byte list \<Rightarrow> Entry" where
  "mkEntry k v = \<lparr>Key = k, Value = v, ExpiresAt = 0, Meta = 0, Version = 0, Offset = 0,
                  Hlen = 0, ValThreshold = 0\<rparr>"

text \<open>Random sources: one that keeps every new node at height 1, one that gives height 3.\<close>

definition rnd_low :: "nat \<Rightarrow> 32 word" where
  "rnd_low k = 4294967295"

definition rnd_three :: "nat \<Rightarrow> 32 word" where
  "rnd_three k = (if k < 2 then 0 else 4294967295)"

definition no_list :: "unit Skiplist" where
  "no_list = \<lparr>height = 0, headOffset = 0, ref = 0, arena = None, OnClose = None\<rparr>"

definition list0 :: "unit Skiplist" where
  "list0 = (case NewSkiplist 256 of Inr s \<Rightarrow> s | Inl e \<Rightarrow> no_list)"

definition add_to :: "unit Skiplist \<Rightarrow> Entry \<Rightarrow> (nat \<Rightarrow> 32 word) \<Rightarrow> unit Skiplist" where
  "add_to s e rnd = (case Add s e rnd of Some (Inr s') \<Rightarrow> s' | _ \<Rightarrow> no_list)"

text \<open>The user key \<open>[1]\<close> at two versions, then the user key \<open>[2]\<close>.\<close>

definition list1 :: "unit Skiplist" where
  "list1 = add_to list0 (mkEntry [1, 0, 0, 0, 0, 0, 0, 0, 5] [65]) rnd_low"

definition list2 :: "unit Skiplist" where
  "list2 = add_to list1 (mkEntry [1, 0, 0, 0, 0, 0, 0, 0, 2] [66]) rnd_three"

definition list3 :: "unit Skiplist" where
  "list3 = add_to list2 (mkEntry [2, 0, 0, 0, 0, 0, 0, 0, 2] [67, 68]) rnd_low"

text \<open>The key stored in the node at \<open>p\<close>, as \<open>Search\<close> reads it.\<close>

definition stored_key :: "'w Skiplist \<Rightarrow> 32 word \<Rightarrow> error + byte list" where
  "stored_key s p = (case arena s of None \<Rightarrow> Inl NilDeref | Some a \<Rightarrow> node_key a p)"



section \<open>Keys: ParseKey, ParseTs, SameKey\<close>

lemma unat_byte_less: "unat (b :: byte) < 256"
  using unsigned_less [of b, where 'a = nat] by simp

lemma horner_step:
  fixes w :: "64 word" and b :: byte
  assumes "unat w < 2 ^ 56"
  shows "unat (push_bit 8 w OR ucast b) = 256 * unat w + unat b"
proof -
  have disj: "push_bit 8 w OR (ucast b :: 64 word) = push_bit 8 w + ucast b"
    by (rule disjunctive_add [symmetric]) (auto simp: bit_simps dest: bit_imp_le_length)
  have "unat (push_bit 8 w) = 256 * unat w"
  proof -
    have "unat w * 256 < 2 ^ 64" using assms by simp
    then show ?thesis
      by (simp add: push_bit_eq_mult unat_word_ariths)
  qed
  moreover have "unat (ucast b :: 64 word) = unat b"
    using unat_byte_less [of b] by (simp add: unsigned_ucast_eq take_bit_nat_eq_self)
  ultimately show ?thesis
    using assms unat_byte_less [of b] unfolding disj by (simp add: unat_word_ariths)
qed

lemma horner_fold:
  fixes w :: "64 word" and bs :: "byte list"
  assumes "unat w < 256 ^ k" "k + length bs \<le> 8"
  shows "unat (foldl (\<lambda>w b. push_bit 8 w OR ucast b) w bs)
           = foldl (\<lambda>a b. 256 * a + unat b) (unat w) bs
         \<and> foldl (\<lambda>a b. 256 * a + unat b) (unat w) bs < 256 ^ (k + length bs)"
  using assms
proof (induction bs arbitrary: w k)
  case Nil
  then show ?case by simp
next
  case (Cons b bs)
  have k7: "k \<le> 7" using Cons.prems by simp
  have "(256::nat) ^ k \<le> 256 ^ 7"
    using k7 by (intro power_increasing) auto
  then have w56: "unat w < 2 ^ 56"
    using Cons.prems(1) by simp
  have st: "unat (push_bit 8 w OR ucast b) = 256 * unat w + unat b"
    by (rule horner_step [OF w56])
  have "256 * unat w + unat b < 256 * 256 ^ k"
    using Cons.prems(1) unat_byte_less [of b] by simp
  then have bd: "unat (push_bit 8 w OR ucast b) < 256 ^ (Suc k)"
    using st by simp
  have "Suc k + length bs \<le> 8" using Cons.prems by simp
  from Cons.IH [OF bd this] show ?case
    using st by simp
qed

lemma BigEndianUint64_fold:
  "BigEndianUint64 [b0, b1, b2, b3, b4, b5, b6, b7] =
    foldl (\<lambda>w b. push_bit 8 w OR ucast b) 0 [b0, b1, b2, b3, b4, b5, b6, b7]"
  unfolding BigEndianUint64_def
  by (rule bit_word_eqI) (auto simp: bit_simps)

lemma length_eight:
  "length (b :: 'a list) = 8 \<Longrightarrow> \<exists>b0 b1 b2 b3 b4 b5 b6 b7. b = [b0, b1, b2, b3, b4, b5, b6, b7]"
  by (auto simp: length_Suc_conv eval_nat_numeral)

lemma BigEndianUint64_be_nat:
  assumes "length b = 8"
  shows "unat (BigEndianUint64 b) = be_nat b"
proof -
  obtain b0 b1 b2 b3 b4 b5 b6 b7 where b: "b = [b0, b1, b2, b3, b4, b5, b6, b7]"
    using length_eight [OF assms] by blast
  have "unat (foldl (\<lambda>w b. push_bit 8 w OR ucast b) (0 :: 64 word) b)
          = foldl (\<lambda>a b. 256 * a + unat b) (unat (0 :: 64 word)) b"
    using horner_fold [of 0 0 b] assms by simp
  then show ?thesis
    unfolding b BigEndianUint64_fold by simp
qed

lemma unat_MaxUint64_minus: "unat (MaxUint64 - w) = 2 ^ 64 - 1 - unat w"
proof -
  have "unat w < 2 ^ 64"
    using unsigned_less [of w, where 'a = nat] by simp
  then have "w \<le> MaxUint64"
    by (simp add: MaxUint64_def word_le_nat_alt)
  then show ?thesis
    by (simp add: unat_sub MaxUint64_def)
qed

lemma ParseTs_be_nat:
  assumes "8 < length key"
  shows "unat (ParseTs key) = 2 ^ 64 - 1 - be_nat (drop (length key - 8) key)"
proof -
  have "length (drop (length key - 8) key) = 8"
    using assms by simp
  then show ?thesis
    using assms by (simp add: ParseTs_def unat_MaxUint64_minus BigEndianUint64_be_nat)
qed

text \<open>
  C7: \<open>ParseTs\<close> is 0 on every key of at most 8 bytes and otherwise the maximal
  64-bit value minus the last 8 bytes read as a big-endian number; \<open>ParseKey\<close>
  returns a key of fewer than 8 bytes whole and otherwise drops the last 8 bytes. On a
  key of exactly 8 bytes \<open>ParseKey\<close> gives the empty user key and \<open>ParseTs\<close> gives 0.
\<close>

theorem ParseTs_ParseKey_cases:
  "(length key \<le> 8 \<longrightarrow> ParseTs key = 0)
   \<and> (8 < length key \<longrightarrow>
        unat (ParseTs key) = 2 ^ 64 - 1 - be_nat (drop (length key - 8) key))
   \<and> (length key < 8 \<longrightarrow> ParseKey key = key)
   \<and> (8 \<le> length key \<longrightarrow>
        ParseKey key = take (length key - 8) key
        \<and> ParseKey key @ drop (length key - 8) key = key)
   \<and> (length key = 8 \<longrightarrow> ParseKey key = [] \<and> ParseTs key = 0)"
  by (simp add: ParseTs_be_nat) (simp add: ParseTs_def ParseKey_def)

theorem ParseTs_ParseKey_cases_witness:
  "ParseKey [9, 9, 9, 9, 9, 9, 9, 9] = [] \<and> ParseTs [9, 9, 9, 9, 9, 9, 9, 9] = 0
   \<and> ParseKey [7, 7, 7] = [7, 7, 7] \<and> ParseTs [7, 7, 7] = 0
   \<and> ParseKey [1, 255, 255, 255, 255, 255, 255, 255, 250] = [1]
   \<and> unat (ParseTs [1, 255, 255, 255, 255, 255, 255, 255, 250]) = 5"
  using ParseTs_ParseKey_cases [of "[9, 9, 9, 9, 9, 9, 9, 9]"]
    ParseTs_ParseKey_cases [of "[7, 7, 7]"]
    ParseTs_ParseKey_cases [of "[1, 255, 255, 255, 255, 255, 255, 255, 250]"]
  by simp


section \<open>The concrete lists, computed\<close>

text \<open>One evaluation of the constructor and the three insertions, with what the later
  theorems need to know of the resulting lists.\<close>

lemma examples_evaluated:
  "case NewSkiplist 256 :: error + unit Skiplist of
     Inl e \<Rightarrow> False
   | Inr s0 \<Rightarrow>
       (case arena s0 of
          None \<Rightarrow> False
        | Some a \<Rightarrow>
            Add_descend a [1, 0, 0, 0, 0, 0, 0, 0, 5] ((replicate (maxHeight + 1) 0)[1 := 8])
              (replicate (maxHeight + 1) 0) 1
            = Some (Inr ((replicate (maxHeight + 1) 0)[1 := 8, 0 := 8],
                         replicate (maxHeight + 1) 0, None))) \<and>
       (case Add s0 (mkEntry [1, 0, 0, 0, 0, 0, 0, 0, 5] [65]) rnd_low of
          Some (Inr s1) \<Rightarrow>
            (case Add s1 (mkEntry [1, 0, 0, 0, 0, 0, 0, 0, 2] [66]) rnd_three of
               Some (Inr s2) \<Rightarrow>
                 height s2 = 3 \<and>
                 (case Add s2 (mkEntry [2, 0, 0, 0, 0, 0, 0, 0, 2] [67, 68]) rnd_low of
                    Some (Inr s3) \<Rightarrow>
                      findNear s3 [1] False True = Some (Inr (152, False))
                      \<and> stored_key s3 152 = Inr [1, 0, 0, 0, 0, 0, 0, 0, 2]
                      \<and> Search s3 [1] = Some (Inr empty_ValueStruct)
                  | _ \<Rightarrow> False)
             | _ \<Rightarrow> False)
        | _ \<Rightarrow> False)"
  by code_simp

lemma NewSkiplist_list0: "NewSkiplist 256 = Inr list0"
  using examples_evaluated by (simp add: list0_def split: sum.splits)

lemma Add_list0: "Add list0 (mkEntry [1, 0, 0, 0, 0, 0, 0, 0, 5] [65]) rnd_low = Some (Inr list1)"
  using examples_evaluated
  by (simp add: NewSkiplist_list0 list1_def add_to_def split: sum.splits option.splits)

lemma Add_list1: "Add list1 (mkEntry [1, 0, 0, 0, 0, 0, 0, 0, 2] [66]) rnd_three = Some (Inr list2)"
  using examples_evaluated
  by (simp add: NewSkiplist_list0 Add_list0 list2_def add_to_def split: sum.splits option.splits)

lemma Add_list2: "Add list2 (mkEntry [2, 0, 0, 0, 0, 0, 0, 0, 2] [67, 68]) rnd_low = Some (Inr list3)"
  using examples_evaluated
  by (simp add: NewSkiplist_list0 Add_list0 Add_list1 list3_def add_to_def
      split: sum.splits option.splits)

lemma list2_height: "height list2 = 3"
  using examples_evaluated
  by (simp add: NewSkiplist_list0 Add_list0 Add_list1)

lemma list3_search:
  "findNear list3 [1] False True = Some (Inr (152, False))"
  "stored_key list3 152 = Inr [1, 0, 0, 0, 0, 0, 0, 0, 2]"
  "Search list3 [1] = Some (Inr empty_ValueStruct)"
  using examples_evaluated
  by (simp_all add: NewSkiplist_list0 Add_list0 Add_list1 Add_list2)

lemma list0_descend:
  "Add_descend (the (arena list0)) [1, 0, 0, 0, 0, 0, 0, 0, 5]
     ((replicate (maxHeight + 1) 0)[1 := 8]) (replicate (maxHeight + 1) 0) 1
   = Some (Inr ((replicate (maxHeight + 1) 0)[1 := 8, 0 := 8],
                replicate (maxHeight + 1) 0, None))"
  using examples_evaluated
  by (simp add: NewSkiplist_list0 del: replicate_Suc Add_descend.simps split: option.splits)

section \<open>The codec of the value cell\<close>

declare uvarint.simps [simp del]
declare sizeVarint_loop.simps [simp del]
declare PutUvarint_loop.simps [simp del]

lemma drop7_zero_iff: "drop_bit 7 (x :: 64 word) = 0 \<longleftrightarrow> x < 0x80"
proof -
  have "unat (drop_bit 7 x) = unat x div 128"
    by (simp add: drop_bit_eq_div unat_div)
  then have "drop_bit 7 x = 0 \<longleftrightarrow> unat x < 128"
    by (simp add: unat_eq_0 [symmetric] div_eq_0_iff del: unat_eq_0)
  then show ?thesis
    by (simp add: word_less_nat_alt)
qed

lemma sizeVarint_loop_uvarint: "sizeVarint_loop x k = k + length (uvarint x)"
proof (induction x arbitrary: k rule: uvarint.induct)
  case (1 x)
  show ?case
  proof (cases "x < 0x80")
    case True
    then show ?thesis
      using drop7_zero_iff [of x]
      by (subst sizeVarint_loop.simps, subst uvarint.simps) (simp add: Let_def)
  next
    case False
    then show ?thesis
      using drop7_zero_iff [of x] "1.IH" [OF False, of "k + 1"]
      by (subst sizeVarint_loop.simps, subst uvarint.simps) (simp add: Let_def)
  qed
qed

lemma sizeVarint_uvarint: "sizeVarint x = length (uvarint x)"
  by (simp add: sizeVarint_def sizeVarint_loop_uvarint)

lemma uvarint_nonempty: "0 < length (uvarint x)"
  by (subst uvarint.simps) simp

lemma PutUvarint_loop_uvarint:
  "i + length (uvarint x) \<le> length b \<Longrightarrow>
   PutUvarint_loop b i x = Inr (take i b @ uvarint x @ drop (i + length (uvarint x)) b,
                                i + length (uvarint x))"
proof (induction x arbitrary: b i rule: uvarint.induct)
  case (1 x)
  show ?case
  proof (cases "x < 0x80")
    case True
    then have u: "uvarint x = [ucast x]"
      by (subst uvarint.simps) simp
    have "i < length b" using "1.prems" u by simp
    then show ?thesis
      using True u
      by (subst PutUvarint_loop.simps) (simp add: not_le [symmetric] upd_conv_take_nth_drop)
  next
    case False
    then have u: "uvarint x = (ucast x OR 0x80) # uvarint (drop_bit 7 x)"
      by (subst uvarint.simps) simp
    have i: "i < length b" using "1.prems" u by simp
    have "(i + 1) + length (uvarint (drop_bit 7 x)) \<le> length (b[i := ucast x OR 0x80])"
      using "1.prems" u by simp
    from "1.IH" [OF False this] have
      "PutUvarint_loop (b[i := ucast x OR 0x80]) (i + 1) (drop_bit 7 x) =
        Inr (take (i + 1) (b[i := ucast x OR 0x80]) @ uvarint (drop_bit 7 x)
             @ drop (i + 1 + length (uvarint (drop_bit 7 x))) (b[i := ucast x OR 0x80]),
             i + 1 + length (uvarint (drop_bit 7 x)))" .
    moreover have "take (i + 1) (b[i := ucast x OR 0x80]) = take i b @ [ucast x OR 0x80]"
      using i by (simp add: take_Suc_conv_app_nth)
    ultimately show ?thesis
      using False i u
      by (subst PutUvarint_loop.simps) (simp add: not_less [symmetric])
  qed
qed


lemma bit_128_int: "bit (128 :: int) n \<longleftrightarrow> n = 7"
proof -
  have "(128 :: int) = 2 ^ 7" by simp
  then have "bit (128 :: int) n \<longleftrightarrow> bit (2 ^ 7 :: int) n" by simp
  also have "\<dots> \<longleftrightarrow> n = 7" by (simp only: bit_exp_iff) auto
  finally show ?thesis .
qed

lemma bit_127_int: "bit (127 :: int) n \<longleftrightarrow> n < 7"
proof -
  have "(127 :: int) = mask 7" by (simp add: mask_eq_exp_minus_1)
  then have "bit (127 :: int) n \<longleftrightarrow> bit (mask 7 :: int) n" by simp
  also have "\<dots> \<longleftrightarrow> n < 7" by (simp only: bit_mask_iff) auto
  finally show ?thesis .
qed

lemma low7_bits:
  "(ucast ((ucast (x :: 64 word) OR 0x80 :: byte) AND 0x7f) :: 64 word) = x AND 0x7f"
  by (rule bit_word_eqI) (auto simp: bit_simps bit_128_int bit_127_int)

lemma split7: "(x :: 64 word) AND 0x7f OR push_bit 7 (drop_bit 7 x) = x"
proof (rule bit_word_eqI)
  fix n assume "n < LENGTH(64)"
  then show "bit (x AND 0x7f OR push_bit 7 (drop_bit 7 x)) n = bit x n"
    by (cases "n < 7") (auto simp: bit_simps bit_127_int)
qed

lemma push_split7:
  "push_bit s ((x :: 64 word) AND 0x7f) OR push_bit (s + 7) (drop_bit 7 x) = push_bit s x"
proof -
  have "push_bit s (x AND 0x7f) OR push_bit (s + 7) (drop_bit 7 x)
        = push_bit s (x AND 0x7f OR push_bit 7 (drop_bit 7 x))"
    by (simp add: push_bit_or push_bit_push_bit add.commute)
  then show ?thesis
    by (simp add: split7)
qed

lemma small_ucast: "(x :: 64 word) < 0x80 \<Longrightarrow> (ucast x :: byte) < 0x80 \<and> (ucast (ucast x :: byte) :: 64 word) = x"
proof -
  assume a: "x < 0x80"
  then have u: "unat x < 128" by (simp add: word_less_nat_alt)
  have ux: "unat (ucast x :: byte) = unat x"
    using u by (simp add: unsigned_ucast_eq take_bit_nat_eq_self)
  then have 1: "(ucast x :: byte) < 0x80"
    using u by (simp add: word_less_nat_alt)
  have "unat (ucast (ucast x :: byte) :: 64 word) = unat (ucast x :: byte)"
    using unat_byte_less [of "ucast x"]
    by (simp only: unsigned_ucast_eq [of "ucast x :: byte"]) (simp add: take_bit_nat_eq_self)
  then have "unat (ucast (ucast x :: byte) :: 64 word) = unat x"
    using ux by simp
  then have "(ucast (ucast x :: byte) :: 64 word) = x"
    by (simp add: word_unat_eq_iff)
  with 1 show ?thesis by simp
qed

lemma big_byte: "\<not> ((ucast (x :: 64 word) OR 0x80 :: byte) < 0x80)"
  using le_word_or1 [of "0x80 :: byte" "ucast x"] by (simp add: not_less)

lemma Uvarint_loop_uvarint:
  assumes "i \<le> 9" and "unat x < 2 ^ (64 - 7 * i)"
  shows "Uvarint_loop (uvarint x @ rest) i acc (7 * i)
         = (acc OR push_bit (7 * i) x, int i + int (length (uvarint x)))"
  using assms
proof (induction x arbitrary: i acc rule: uvarint.induct)
  case (1 x)
  show ?case
  proof (cases "x < 0x80")
    case True
    then have u: "uvarint x = [ucast x]"
      by (subst uvarint.simps) simp
    have last: "i = 9 \<Longrightarrow> \<not> 1 < (ucast x :: byte)"
    proof -
      assume "i = 9"
      then have "unat x < 2" using "1.prems" by simp
      moreover have "unat (ucast x :: byte) = unat x"
        using True by (simp add: unsigned_ucast_eq take_bit_nat_eq_self word_less_nat_alt)
      ultimately show ?thesis by (simp add: word_less_nat_alt)
    qed
    show ?thesis
      using True "1.prems"(1) last small_ucast [OF True] by (auto simp: u)
  next
    case False
    then have u: "uvarint x = (ucast x OR 0x80) # uvarint (drop_bit 7 x)"
      by (subst uvarint.simps) simp
    have x128: "128 \<le> unat x"
      using False by (simp add: word_less_nat_alt)
    have i8: "i \<le> 8"
    proof (rule ccontr)
      assume "\<not> i \<le> 8"
      then have "i = 9" using "1.prems" by simp
      then show False using "1.prems" x128 by simp
    qed
    have "64 - 7 * i = 7 + (64 - 7 * (i + 1))"
      using i8 by simp
    then have "(2 :: nat) ^ (64 - 7 * i) = 2 ^ 7 * 2 ^ (64 - 7 * (i + 1))"
      by (simp only: power_add)
    then have "unat x < 2 ^ 7 * 2 ^ (64 - 7 * (i + 1))"
      using "1.prems"(2) by (simp only:)
    then have d: "unat (drop_bit 7 x) < 2 ^ (64 - 7 * (i + 1))"
      by (simp add: drop_bit_eq_div unat_div less_mult_imp_div_less mult.commute)
    have ne: "(i = 10) = False"
      using i8 by simp
    have bb: "((ucast x OR 0x80 :: byte) < 0x80) = False"
      using big_byte [of x] by simp
    have "Uvarint_loop (uvarint x @ rest) i acc (7 * i)
          = Uvarint_loop (uvarint (drop_bit 7 x) @ rest) (i + 1)
              (acc OR push_bit (7 * i) (ucast ((ucast x OR 0x80 :: byte) AND 0x7f))) (7 * i + 7)"
      by (simp only: u append_Cons Uvarint_loop.simps ne bb if_False)
    also have "\<dots> = Uvarint_loop (uvarint (drop_bit 7 x) @ rest) (i + 1)
              (acc OR push_bit (7 * i) (x AND 0x7f)) (7 * (i + 1))"
      by (simp only: low7_bits) (simp add: add.commute)
    also have "\<dots> = ((acc OR push_bit (7 * i) (x AND 0x7f)) OR push_bit (7 * (i + 1)) (drop_bit 7 x),
             int (i + 1) + int (length (uvarint (drop_bit 7 x))))"
      using i8 by (intro "1.IH" [OF False _ d]) simp
    also have "(acc OR push_bit (7 * i) (x AND 0x7f)) OR push_bit (7 * (i + 1)) (drop_bit 7 x)
        = acc OR push_bit (7 * i) x"
      using push_split7 [of "7 * i" x] by (simp only: or.assoc) (simp add: add.commute)
    finally show ?thesis
      by (simp add: u)
  qed
qed

lemma Uvarint_uvarint: "Uvarint (uvarint x @ rest) = (x, int (length (uvarint x)))"
proof -
  have "unat x < 2 ^ (64 - 7 * 0)"
    using unsigned_less [of x, where 'a = nat] by simp
  from Uvarint_loop_uvarint [OF _ this, of rest 0] show ?thesis
    by (simp add: Uvarint_def)
qed

lemma EncodeValue_encoded:
  assumes "length (encoded v) \<le> length b"
  shows "EncodeValue v b = Inr (encoded v @ drop (length (encoded v)) b,
                                of_nat (length (encoded v)))"
proof -
  let ?u = "uvarint (ValueStruct.ExpiresAt v)"
  let ?n = "length ?u"
  have len: "1 + ?n + length (ValueStruct.Value v) \<le> length b"
    using assms by (simp add: encoded_def)
  then obtain m bs where b: "b = m # bs"
    by (cases b) auto
  have put: "PutUvarint bs (ValueStruct.ExpiresAt v) = Inr (?u @ drop ?n bs, ?n)"
    using PutUvarint_loop_uvarint [of 0 "ValueStruct.ExpiresAt v" bs] len b
    by (simp add: PutUvarint_def)
  have m: "min (length bs - ?n) (length (ValueStruct.Value v)) = length (ValueStruct.Value v)"
    using len b by simp
  show ?thesis
    using len unfolding EncodeValue_def b
    by (simp add: put bindE_def Let_def encoded_def m add.commute)
qed

lemma DecodeValue_encoded:
  "DecodeValue vs (encoded v) =
     Inr (vs\<lparr>ValueStruct.Meta := ValueStruct.Meta v,
              ValueStruct.ExpiresAt := ValueStruct.ExpiresAt v,
              ValueStruct.Value := ValueStruct.Value v\<rparr>)"
proof -
  have "nat (1 + int (length (uvarint (ValueStruct.ExpiresAt v))))
        = Suc (length (uvarint (ValueStruct.ExpiresAt v)))"
    by simp
  then show ?thesis
    by (simp add: DecodeValue_def encoded_def Uvarint_uvarint del: of_nat_Suc)
qed

lemma length_uvarint_le: "length (uvarint x) \<le> 10"
proof -
  have "i \<le> 9 \<Longrightarrow> unat x < 2 ^ (64 - 7 * i) \<Longrightarrow> i + length (uvarint x) \<le> 10" for i
  proof (induction x arbitrary: i rule: uvarint.induct)
    case (1 x)
    show ?case
    proof (cases "x < 0x80")
      case True
      then have "uvarint x = [ucast x]"
        by (subst uvarint.simps) simp
      then show ?thesis using "1.prems" by simp
    next
      case False
      then have u: "uvarint x = (ucast x OR 0x80) # uvarint (drop_bit 7 x)"
        by (subst uvarint.simps) simp
      have x128: "128 \<le> unat x"
        using False by (simp add: word_less_nat_alt)
      have i8: "i \<le> 8"
      proof (rule ccontr)
        assume "\<not> i \<le> 8"
        then have "i = 9" using "1.prems" by simp
        then show False using "1.prems" x128 by simp
      qed
      have "64 - 7 * i = 7 + (64 - 7 * (i + 1))"
        using i8 by simp
      then have "(2 :: nat) ^ (64 - 7 * i) = 2 ^ 7 * 2 ^ (64 - 7 * (i + 1))"
        by (simp only: power_add)
      then have "unat x < 2 ^ 7 * 2 ^ (64 - 7 * (i + 1))"
        using "1.prems"(2) by (simp only:)
      then have d: "unat (drop_bit 7 x) < 2 ^ (64 - 7 * (i + 1))"
        by (simp add: drop_bit_eq_div unat_div less_mult_imp_div_less mult.commute)
      from "1.IH" [OF False _ d] i8 show ?thesis
        by (simp add: u)
    qed
  qed
  from this [of 0] show ?thesis
    using unsigned_less [of x, where 'a = nat] by simp
qed

lemma unat_EncodedSize:
  "length (encoded v) < 2 ^ 32 \<Longrightarrow> unat (EncodedSize v) = length (encoded v)"
proof -
  assume a: "length (encoded v) < 2 ^ 32"
  have "EncodedSize v = of_nat (length (encoded v))"
    by (simp add: EncodedSize_def encoded_def sizeVarint_uvarint Let_def)
  then show ?thesis
    using a by (simp only: unat_of_nat) simp
qed


lemma length_encoded:
  "length (encoded v) = 1 + sizeVarint (ValueStruct.ExpiresAt v) + length (ValueStruct.Value v)"
  by (simp add: encoded_def sizeVarint_uvarint)

text \<open>
  C6, as amended: \<open>EncodedSize\<close> returns a 32-bit number, so it is the length
  \<open>1 + varint_len(ExpiresAt) + len(Value)\<close> for every value cell whose encoding is
  shorter than \<open>2^32\<close> bytes. For every value cell, \<open>EncodeValue\<close> on a buffer with
  room writes exactly that many bytes, \<open>Meta\<close>, then the varint of \<open>ExpiresAt\<close>, then
  the value bytes, and leaves the rest of the buffer alone; \<open>DecodeValue\<close> on those
  bytes restores \<open>Meta\<close>, \<open>ExpiresAt\<close> and \<open>Value\<close>. \<open>sizeVarint\<close> is the length of
  the varint.
\<close>

theorem codec_round_trip:
  "(length (encoded v) < 2 ^ 32 \<longrightarrow>
      unat (EncodedSize v)
        = 1 + sizeVarint (ValueStruct.ExpiresAt v) + length (ValueStruct.Value v))
   \<and> sizeVarint (ValueStruct.ExpiresAt v) = length (uvarint (ValueStruct.ExpiresAt v))
   \<and> (length (encoded v) \<le> length b \<longrightarrow>
        (\<exists>b' k. EncodeValue v b = Inr (b', k)
           \<and> length b' = length b
           \<and> take (1 + sizeVarint (ValueStruct.ExpiresAt v) + length (ValueStruct.Value v)) b'
               = ValueStruct.Meta v # uvarint (ValueStruct.ExpiresAt v) @ ValueStruct.Value v
           \<and> drop (length (encoded v)) b' = drop (length (encoded v)) b
           \<and> DecodeValue vs (take (length (encoded v)) b')
               = Inr (vs\<lparr>ValueStruct.Meta := ValueStruct.Meta v,
                        ValueStruct.ExpiresAt := ValueStruct.ExpiresAt v,
                        ValueStruct.Value := ValueStruct.Value v\<rparr>)))"
proof (intro conjI impI)
  assume "length (encoded v) < 2 ^ 32"
  then show "unat (EncodedSize v)
      = 1 + sizeVarint (ValueStruct.ExpiresAt v) + length (ValueStruct.Value v)"
    by (simp only: unat_EncodedSize length_encoded)
next
  show "sizeVarint (ValueStruct.ExpiresAt v) = length (uvarint (ValueStruct.ExpiresAt v))"
    by (rule sizeVarint_uvarint)
next
  assume room: "length (encoded v) \<le> length b"
  let ?b' = "encoded v @ drop (length (encoded v)) b"
  have "EncodeValue v b = Inr (?b', of_nat (length (encoded v)))"
    by (rule EncodeValue_encoded [OF room])
  moreover have "length ?b' = length b"
    using room by simp
  moreover have "take (1 + sizeVarint (ValueStruct.ExpiresAt v) + length (ValueStruct.Value v)) ?b'
      = ValueStruct.Meta v # uvarint (ValueStruct.ExpiresAt v) @ ValueStruct.Value v"
    by (simp only: length_encoded [symmetric]) (simp add: encoded_def)
  moreover have "DecodeValue vs (take (length (encoded v)) ?b')
      = Inr (vs\<lparr>ValueStruct.Meta := ValueStruct.Meta v,
                ValueStruct.ExpiresAt := ValueStruct.ExpiresAt v,
                ValueStruct.Value := ValueStruct.Value v\<rparr>)"
    by (simp add: DecodeValue_encoded)
  ultimately show "\<exists>b' k. EncodeValue v b = Inr (b', k)
           \<and> length b' = length b
           \<and> take (1 + sizeVarint (ValueStruct.ExpiresAt v) + length (ValueStruct.Value v)) b'
               = ValueStruct.Meta v # uvarint (ValueStruct.ExpiresAt v) @ ValueStruct.Value v
           \<and> drop (length (encoded v)) b' = drop (length (encoded v)) b
           \<and> DecodeValue vs (take (length (encoded v)) b')
               = Inr (vs\<lparr>ValueStruct.Meta := ValueStruct.Meta v,
                        ValueStruct.ExpiresAt := ValueStruct.ExpiresAt v,
                        ValueStruct.Value := ValueStruct.Value v\<rparr>)"
    by (intro exI [of _ ?b'] exI [of _ "of_nat (length (encoded v))"]) simp
qed

theorem codec_round_trip_witness:
  "unat (EncodedSize \<lparr>ValueStruct.Meta = 7, Value = [1, 2, 3], ExpiresAt = 300, Version = 9\<rparr>) = 6
   \<and> (\<exists>b' k. EncodeValue \<lparr>ValueStruct.Meta = 7, Value = [1, 2, 3], ExpiresAt = 300, Version = 9\<rparr>
                 [0, 0, 0, 0, 0, 0, 0, 8] = Inr (b', k)
         \<and> take 6 b' = [7, 172, 2, 1, 2, 3] \<and> drop 6 b' = [0, 8]
         \<and> DecodeValue empty_ValueStruct (take 6 b')
             = Inr \<lparr>ValueStruct.Meta = 7, Value = [1, 2, 3], ExpiresAt = 300, Version = 0\<rparr>)"
proof -
  let ?v = "\<lparr>ValueStruct.Meta = 7, Value = [1, 2, 3], ExpiresAt = 300, Version = 9\<rparr>"
  have u: "uvarint 300 = [172, 2]"
    by code_simp
  have e: "encoded ?v = [7, 172, 2, 1, 2, 3]"
    by (simp add: encoded_def u)
  have l: "length (encoded ?v) = 6" "sizeVarint 300 = 2"
    by (simp_all add: e sizeVarint_uvarint u)
  have t: "1 + sizeVarint 300 + length [1, 2, 3 :: byte] = 6"
    by (simp add: l)
  note c = codec_round_trip [of ?v "[0, 0, 0, 0, 0, 0, 0, 8]" empty_ValueStruct,
      unfolded l, simplified ValueStruct.simps t]
  have sz: "unat (EncodedSize ?v) = 6"
    using c by simp
  have ex: "\<exists>b' k. EncodeValue ?v [0, 0, 0, 0, 0, 0, 0, 8] = Inr (b', k)
           \<and> take 6 b' = [7, 172, 2, 1, 2, 3] \<and> drop 6 b' = [0, 8]
           \<and> DecodeValue empty_ValueStruct (take 6 b')
               = Inr \<lparr>ValueStruct.Meta = 7, Value = [1, 2, 3], ExpiresAt = 300, Version = 0\<rparr>"
    using c by (simp add: u empty_ValueStruct_def) blast
  from sz ex show ?thesis
    by blast
qed

text \<open>
  The claim as it is stated fails on a value of \<open>2^32 - 2\<close> bytes: its encoding has
  \<open>2^32\<close> bytes and \<open>EncodedSize\<close> returns 0.
\<close>

theorem EncodedSize_wraps_counterexample:
  "unat (EncodedSize \<lparr>ValueStruct.Meta = 0, Value = replicate 4294967294 0, ExpiresAt = 0,
                       Version = 0\<rparr>)
   \<noteq> 1 + sizeVarint 0 + length (replicate 4294967294 (0 :: byte))"
proof -
  have "sizeVarint 0 = 1"
    by (simp add: sizeVarint_def sizeVarint_loop.simps)
  then show ?thesis
    by (simp add: EncodedSize_def)
qed

section \<open>The fields of a new list\<close>

lemma NewSkiplist_fields:
  assumes "NewSkiplist arenaSize = Inr s"
  shows "height s = 1" and "ref s = 1" and "OnClose s = None" and "arena s \<noteq> None"
  using assms
  by (auto simp: NewSkiplist_def bindE_def Let_def split: sum.splits prod.splits)

section \<open>The height of the list\<close>

declare randomHeight_loop.simps [simp del]
declare Add_raise_height.simps [simp del]
declare Add_link.simps [simp del]

lemma randomHeight_loop_bounds:
  "1 \<le> h \<Longrightarrow> h \<le> maxHeight \<Longrightarrow>
   1 \<le> randomHeight_loop rnd h k \<and> randomHeight_loop rnd h k \<le> maxHeight"
proof (induction rnd h k rule: randomHeight_loop.induct)
  case (1 rnd h k)
  show ?case
  proof (cases "h < maxHeight \<and> rnd k \<le> heightIncrease")
    case True
    then show ?thesis
      using "1.IH" "1.prems" by (simp add: randomHeight_loop.simps [of rnd h k])
  next
    case False
    then show ?thesis
      using "1.prems" by (auto simp: randomHeight_loop.simps [of rnd h k])
  qed
qed

lemma randomHeight_bounds: "1 \<le> randomHeight rnd" "randomHeight rnd \<le> maxHeight"
  using randomHeight_loop_bounds [of 1 rnd 0] by (simp_all add: randomHeight_def maxHeight_def)

lemma Add_raise_height_seq:
  "height t = listHeight \<Longrightarrow>
   Add_raise_height t h listHeight = (if listHeight < h then t\<lparr>height := h\<rparr> else t)"
  by (subst Add_raise_height.simps) simp

lemma Add_fields:
  assumes "Add s e rnd = Some (Inr s')"
  shows "height s' = (if height s < randomHeight rnd then height s' else height s)"
    and "height s' = height s \<or> (height s < height s' \<and> height s' = randomHeight rnd)"
    and "headOffset s' = headOffset s" and "ref s' = ref s" and "OnClose s' = OnClose s"
    and "arena s' \<noteq> None"
  using assms
  by (auto simp: Add_def Let_def Add_raise_height_seq getHeight_def
      split: option.splits sum.splits prod.splits if_splits)

lemma step_height:
  assumes "step (s, w) x = Some (Inr (s', w'))"
  shows "height s \<le> height s'"
    and "1 \<le> height s \<and> height s \<le> maxHeight \<Longrightarrow> 1 \<le> height s' \<and> height s' \<le> maxHeight"
proof -
  have "height s' = height s \<or> (\<exists>rnd. height s < height s' \<and> height s' = randomHeight rnd)"
  proof (cases x)
    case (OpAdd e rnd)
    then have "Add s e rnd = Some (Inr s')"
      using assms by (simp split: option.splits sum.splits)
    from Add_fields(2) [OF this] show ?thesis
      by blast
  qed (use assms in \<open>auto simp: NewSkipListIterator_def IncrRef_def Close_def DecrRef_def
        Let_def split: if_splits\<close>)
  then show "height s \<le> height s'"
    and "1 \<le> height s \<and> height s \<le> maxHeight \<Longrightarrow> 1 \<le> height s' \<and> height s' \<le> maxHeight"
    using randomHeight_bounds by auto
qed

lemma exec_height:
  assumes "exec (s, w) xs = Some (Inr (s', w'))"
  shows "height s \<le> height s'"
    and "1 \<le> height s \<and> height s \<le> maxHeight \<Longrightarrow> 1 \<le> height s' \<and> height s' \<le> maxHeight"
  using assms
proof (induction xs arbitrary: s w)
  case Nil
  {
    case 1
    then show ?case by simp
  next
    case 2
    then show ?case by simp
  }
next
  case (Cons x xs)
  {
    case 1
    then obtain s1 w1 where st: "step (s, w) x = Some (Inr (s1, w1))"
      and ex: "exec (s1, w1) xs = Some (Inr (s', w'))"
      by (auto split: option.splits sum.splits)
    from step_height(1) [OF st] Cons.IH(1) [OF ex] show ?case
      by simp
  next
    case 2
    then obtain s1 w1 where st: "step (s, w) x = Some (Inr (s1, w1))"
      and ex: "exec (s1, w1) xs = Some (Inr (s', w'))"
      by (auto split: option.splits sum.splits)
    from step_height(2) [OF st] Cons.IH(2) [OF _ ex] 2 show ?case
      by simp
  }
qed

text \<open>
  C8: \<open>NewSkiplist\<close> sets the height to 1; \<open>randomHeight\<close> returns a value between 1
  and \<open>maxHeight = 20\<close>; \<open>Add\<close> leaves the height as it is or raises it to the height
  drawn for the new node, which is then strictly larger. So over every execution the
  height never decreases, and from a new list it stays between 1 and 20.
\<close>

theorem height_monotone_bounded:
  "(NewSkiplist arenaSize = Inr s0 \<longrightarrow> height s0 = 1)
   \<and> 1 \<le> randomHeight rnd \<and> randomHeight rnd \<le> maxHeight \<and> maxHeight = 20
   \<and> (Add s e rnd = Some (Inr s') \<longrightarrow>
        height s' = height s \<or> (height s < height s' \<and> height s' = randomHeight rnd))
   \<and> (exec (s, w) xs = Some (Inr (t, w')) \<longrightarrow> height s \<le> height t)
   \<and> (NewSkiplist arenaSize = Inr s0 \<and> exec (s0, w) xs = Some (Inr (t, w')) \<longrightarrow>
        1 \<le> height t \<and> height t \<le> 20)"
proof (intro conjI impI)
  assume "NewSkiplist arenaSize = Inr s0 \<and> exec (s0, w) xs = Some (Inr (t, w'))"
  then have "height s0 = 1" and ex: "exec (s0, w) xs = Some (Inr (t, w'))"
    using NewSkiplist_fields(1) by auto
  then have "1 \<le> height s0 \<and> height s0 \<le> maxHeight"
    by (simp add: maxHeight_def)
  from exec_height(2) [OF ex this]
  show "1 \<le> height t" and "height t \<le> 20"
    by (simp_all add: maxHeight_def)
next
  assume "Add s e rnd = Some (Inr s')"
  then show "height s' = height s \<or> (height s < height s' \<and> height s' = randomHeight rnd)"
    by (rule Add_fields(2))
qed (use NewSkiplist_fields(1) randomHeight_bounds exec_height(1) in
      \<open>auto simp: maxHeight_def\<close>)

theorem height_monotone_bounded_witness:
  "NewSkiplist 256 = Inr list0 \<and> height list0 = 1
   \<and> Add list1 (mkEntry [1, 0, 0, 0, 0, 0, 0, 0, 2] [66]) rnd_three = Some (Inr list2)
   \<and> height list1 < height list2 \<and> height list2 = randomHeight rnd_three
   \<and> exec (list0, ()) [OpAdd (mkEntry [1, 0, 0, 0, 0, 0, 0, 0, 5] [65]) rnd_low,
        OpAdd (mkEntry [1, 0, 0, 0, 0, 0, 0, 0, 2] [66]) rnd_three]
       = Some (Inr (list2, ()))
   \<and> height list0 \<le> height list2 \<and> 1 \<le> height list2 \<and> height list2 \<le> 20"
proof -
  let ?e1 = "mkEntry [1, 0, 0, 0, 0, 0, 0, 0, 5] [65]"
  let ?e2 = "mkEntry [1, 0, 0, 0, 0, 0, 0, 0, 2] [66]"
  let ?xs = "[OpAdd ?e1 rnd_low, OpAdd ?e2 rnd_three]"
  have ex: "exec (list0, ()) ?xs = Some (Inr (list2, ()))"
    by (simp add: Add_list0 Add_list1)
  have r1: "randomHeight rnd_low = 1"
    by (simp add: randomHeight_def rnd_low_def randomHeight_loop.simps [of _ "Suc 0" 0]
        heightIncrease_def)
  have h0: "height list0 = 1"
    using height_monotone_bounded [of 256 list0 rnd_low list0 ?e1 list1 "()" "[]" list0 "()"]
      NewSkiplist_list0 by simp
  have h1: "height list1 = 1"
    using height_monotone_bounded [of 256 list0 rnd_low list0 ?e1 list1 "()" "[]" list0 "()"]
      Add_list0 h0 r1 by auto
  show ?thesis
    using height_monotone_bounded [of 256 list0 rnd_three list1 ?e2 list2 "()" ?xs list2 "()"]
      NewSkiplist_list0 Add_list1 ex h0 h1 list2_height
    by auto
qed

section \<open>The reference count\<close>












section \<open>The level assertion of the publish loop\<close>

lemma getNode_Inr: "getNode a p = Inr q \<Longrightarrow> q = p"
  by (auto simp: getNode_def split: if_splits)

lemma getNextOffset_nil: "getNextOffset a 0 l = Inl NilDeref"
  by (simp add: getNextOffset_def load_def bindE_def)

lemma findSpliceForLevel_nonnull:
  assumes "findSpliceForLevel a key before level = Some (Inr (p, q))"
  shows "p \<noteq> 0"
proof -
  have "\<forall>p q. y = Inr (p, q) \<longrightarrow> p \<noteq> 0"
    if "findSpliceForLevel a key before level = Some y" for y
  proof (rule findSpliceForLevel.raw_induct
      [where P = "\<lambda>a key before level y. \<forall>p q. y = Inr (p, q) \<longrightarrow> p \<noteq> 0", OF _ that],
      goal_cases)
    case (1 f a key before level y)
    show ?case
    proof (intro allI impI)
      fix p q
      assume y: "y = Inr (p, q)"
      show "p \<noteq> 0"
      proof (cases "before = 0")
        case True
        then show ?thesis
          using 1(2) y by (simp add: getNode_def getNextOffset_nil)
      next
        case False
        then show ?thesis
          using 1 y
          by (auto simp: Let_def dest!: getNode_Inr split: sum.splits if_splits)
      qed
    qed
  qed
  then show ?thesis
    using assms by blast
qed

lemmas Add_link_level_induct =
  Add_link_level.raw_induct [where xa = "(((((((a, ho), key), v), x), i), prev), nxt)"
    for a ho key v x i prev nxt, unfolded prod.case]

lemma Add_descend_prev:
  assumes "Add_descend a key prev nxt n = Some (Inr (prev1, nxt1, r))"
    and "n < length prev"
  shows "length prev1 = length prev"
    and "\<forall>j. n \<le> j \<longrightarrow> prev1 ! j = prev ! j"
    and "r = None \<Longrightarrow> \<forall>j < n. prev1 ! j \<noteq> 0"
  using assms
proof (induction n arbitrary: prev nxt)
  case 0
  {
    case 1 then show ?case by simp
  next
    case 2 then show ?case by simp
  next
    case 3 then show ?case by simp
  }
next
  case (Suc n)
  {
    case 1
    then show ?case
      using Suc.IH(1) [of "prev[n := p]" "nxt[n := q]" for p q]
      by (auto simp: Let_def split: option.splits sum.splits prod.splits if_splits)
  next
    case 2
    then show ?case
      using Suc.IH(2) [of "prev[n := p]" "nxt[n := q]" for p q]
      by (auto simp: Let_def split: option.splits sum.splits prod.splits if_splits)
  next
    case 3
    then obtain p q where f: "findSpliceForLevel a key (prev ! (n + 1)) n = Some (Inr (p, q))"
      and d: "Add_descend a key (prev[n := p]) (nxt[n := q]) n = Some (Inr (prev1, nxt1, r))"
      by (auto simp: Let_def split: option.splits sum.splits prod.splits if_splits)
    have p: "p \<noteq> 0"
      using findSpliceForLevel_nonnull [OF f] .
    have l: "n < length (prev[n := p])"
      using 3 by simp
    have "prev1 ! n = p"
      using Suc.IH(2) [OF d l] 3 by simp
    moreover have "\<forall>j < n. prev1 ! j \<noteq> 0"
      using Suc.IH(3) [OF _ d l] 3 by simp
    ultimately show ?case
      using p by (auto simp: less_Suc_eq)
  }
qed

lemma bindE_Inl_cases:
  assumes "bindE m f = Inl e"
  obtains "m = Inl e" | y where "m = Inr y" and "f y = Inl e"
  using assms by (cases m) (auto simp: bindE_def)

lemma getNode_err: "getNode a p = Inl e \<Longrightarrow> e = IndexOutOfRange"
  by (auto simp: getNode_def split: if_splits)

lemma load_err: "load a p = Inl e \<Longrightarrow> e = NilDeref \<or> e = BadPointer"
  by (auto simp: load_def split: if_splits option.splits)

lemma getNextOffset_err: "getNextOffset a p l = Inl e \<Longrightarrow> e \<noteq> AssertLevelGtOne"
  by (auto simp: getNextOffset_def elim!: bindE_Inl_cases dest!: load_err split: if_splits)

lemma setTower_err: "setTower a p l v = Inl e \<Longrightarrow> e \<noteq> AssertLevelGtOne"
  by (auto simp: setTower_def elim!: bindE_Inl_cases dest!: load_err split: if_splits)

lemma casNextOffset_err: "casNextOffset a p l old v = Inl e \<Longrightarrow> e \<noteq> AssertLevelGtOne"
  by (auto simp: casNextOffset_def elim!: bindE_Inl_cases dest!: load_err split: if_splits)

lemma slice_err: "slice b lo hi = Inl e \<Longrightarrow> e = SliceBounds"
  by (auto simp: slice_def split: if_splits)

lemma node_key_err: "node_key a p = Inl e \<Longrightarrow> e \<noteq> AssertLevelGtOne"
  by (auto simp: node_key_def getKey_def elim!: bindE_Inl_cases dest!: load_err slice_err)

lemma allocate_err: "allocate a sz = Inl e \<Longrightarrow> e = ArenaFull"
  by (auto simp: allocate_def Let_def split: if_splits)

lemma PutUvarint_loop_err: "PutUvarint_loop b i x = Inl e \<Longrightarrow> e = IndexOutOfRange"
proof (induction b i x rule: PutUvarint_loop.induct)
  case (1 b i x)
  then show ?case
    by (subst (asm) (2) PutUvarint_loop.simps) (auto split: if_splits)
qed

lemma EncodeValue_err: "EncodeValue v b = Inl e \<Longrightarrow> e = IndexOutOfRange"
  by (auto simp: EncodeValue_def PutUvarint_def Let_def elim!: bindE_Inl_cases
      dest!: PutUvarint_loop_err split: if_splits prod.splits)

lemma putVal_err: "putVal a v = Inl e \<Longrightarrow> e \<noteq> AssertLevelGtOne"
  by (auto simp: putVal_def Let_def elim!: bindE_Inl_cases
      dest!: allocate_err slice_err EncodeValue_err split: prod.splits)

lemma putKey_err: "putKey a k = Inl e \<Longrightarrow> e \<noteq> AssertLevelGtOne"
  by (auto simp: putKey_def Let_def elim!: bindE_Inl_cases
      dest!: allocate_err slice_err split: prod.splits if_splits)

lemma putNode_err: "putNode a h = Inl e \<Longrightarrow> e \<noteq> AssertLevelGtOne"
  by (auto simp: putNode_def Let_def elim!: bindE_Inl_cases
      dest!: allocate_err split: prod.splits if_splits)

lemma newNode_err: "newNode a k v h = Inl e \<Longrightarrow> e \<noteq> AssertLevelGtOne"
  by (auto simp: newNode_def Let_def elim!: bindE_Inl_cases
      dest!: putNode_err putKey_err putVal_err getNode_err load_err split: prod.splits if_splits)

lemma Add_overwrite_err: "Add_overwrite a v p = Inl e \<Longrightarrow> e \<noteq> AssertLevelGtOne"
  by (auto simp: Add_overwrite_def setValue_def Let_def elim!: bindE_Inl_cases
      dest!: putVal_err getNode_err load_err split: prod.splits if_splits)

lemma findSpliceForLevel_err:
  assumes "findSpliceForLevel a key before level = Some (Inl e)"
  shows "e \<noteq> AssertLevelGtOne"
proof -
  have "y \<noteq> Inl AssertLevelGtOne"
    if "findSpliceForLevel a key before level = Some y" for y
  proof (rule findSpliceForLevel.raw_induct
      [where P = "\<lambda>a key before level y. y \<noteq> Inl AssertLevelGtOne", OF _ that],
      goal_cases)
    case (1 f a key before level y)
    then show ?case
      by (auto simp: Let_def dest!: getNode_err getNextOffset_err node_key_err
          split: sum.splits if_splits)
  qed
  then show ?thesis
    using assms by blast
qed

lemma Add_descend_err:
  "Add_descend a key prev nxt n = Some (Inl e) \<Longrightarrow> e \<noteq> AssertLevelGtOne"
proof (induction n arbitrary: prev nxt)
  case 0
  then show ?case by simp
next
  case (Suc n)
  then show ?case
    by (auto simp: Let_def dest!: findSpliceForLevel_err
        split: option.splits sum.splits prod.splits if_splits)
qed

lemma Add_link_level_prev:
  assumes r: "Add_link_level a ho key v x i prev nxt = Some y"
    and nz: "prev ! i \<noteq> 0 \<or> 1 < i" and len: "i < length prev"
  shows "y \<noteq> Inl AssertLevelGtOne"
    and "y = Inr (a', prev', nxt', b) \<Longrightarrow>
         length prev' = length prev \<and> (\<forall>j. j \<noteq> i \<longrightarrow> prev' ! j = prev ! j)"
proof -
  let ?P = "\<lambda>(a :: Arena) (ho :: 32 word) (key :: byte list) (v :: ValueStruct) (x :: 32 word)
      i (prev :: 32 word list) (nxt :: 32 word list) y.
      (prev ! i \<noteq> 0 \<or> 1 < i) \<longrightarrow> i < length prev \<longrightarrow>
      y \<noteq> Inl AssertLevelGtOne
      \<and> (\<forall>a' prev' nxt' b. y = Inr (a', prev', nxt', b) \<longrightarrow>
            length prev' = length prev \<and> (\<forall>j. j \<noteq> i \<longrightarrow> prev' ! j = prev ! j))"
  have "?P a ho key v x i prev nxt y"
  proof (rule Add_link_level_induct [where P = ?P, OF _ r], goal_cases)
    case (1 f a ho key v x i prev nxt y)
    note IH = 1(1) and body = 1(2)
    show ?case
    proof (intro impI)
      assume nz: "prev ! i \<noteq> 0 \<or> 1 < i" and len: "i < length prev"
      let ?G = "y \<noteq> Inl AssertLevelGtOne
        \<and> (\<forall>a' prev' nxt' b. y = Inr (a', prev', nxt', b) \<longrightarrow>
              length prev' = length prev \<and> (\<forall>j. j \<noteq> i \<longrightarrow> prev' ! j = prev ! j))"
      have rest: ?G
        if h: "(case setTower a x i (next1 ! i) of
                  Inl e \<Rightarrow> Some (Inl e)
                | Inr a1 \<Rightarrow>
                   (case getNode a1 (prev1 ! i) of
                      Inl e \<Rightarrow> Some (Inl e)
                    | Inr pnode \<Rightarrow>
                       (case casNextOffset a1 pnode i (next1 ! i) (getNodeOffset a1 x) of
                          Inl e \<Rightarrow> Some (Inl e)
                        | Inr (a2, ok) \<Rightarrow>
                            if ok then Some (Inr (a2, prev1, next1, False))
                            else
                              (case findSpliceForLevel a2 key (prev1 ! i) i of
                                 None \<Rightarrow> None
                               | Some (Inl e) \<Rightarrow> Some (Inl e)
                               | Some (Inr (p, q)) \<Rightarrow>
                                   let prev2 = prev1[i := p]; next2 = next1[i := q] in
                                   if p = q then
                                     (if i \<noteq> 0 then Some (Inl AssertEqualityBaseLevel)
                                      else
                                        (case Add_overwrite a2 v (prev2 ! i) of
                                           Inl e \<Rightarrow> Some (Inl e)
                                         | Inr a3 \<Rightarrow> Some (Inr (a3, prev2, next2, True))))
                                   else f a2 ho key v x i prev2 next2)))) = Some y"
          and l1: "length prev1 = length prev"
          and e1: "\<forall>j. j \<noteq> i \<longrightarrow> prev1 ! j = prev ! j"
        for prev1 next1
      proof (cases "setTower a x i (next1 ! i)")
        case (Inl e)
        then show ?thesis
          using h setTower_err [OF Inl] by auto
      next
        case st: (Inr a1)
        show ?thesis
        proof (cases "getNode a1 (prev1 ! i)")
          case (Inl e)
          then show ?thesis
            using h st getNode_err [OF Inl] by auto
        next
          case gn: (Inr pnode)
          show ?thesis
          proof (cases "casNextOffset a1 pnode i (next1 ! i) (getNodeOffset a1 x)")
            case (Inl e)
            then show ?thesis
              using h st gn casNextOffset_err [OF Inl] by auto
          next
            case cs: (Inr res)
            obtain a2 ok where res: "res = (a2, ok)"
              by (cases res)
            show ?thesis
            proof (cases ok)
              case True
              then show ?thesis
                using h st gn cs res l1 e1 by auto
            next
              case nok: False
              show ?thesis
              proof (cases "findSpliceForLevel a2 key (prev1 ! i) i")
                case None
                then show ?thesis
                  using h st gn cs res nok by auto
              next
                case (Some z)
                show ?thesis
                proof (cases z)
                  case (Inl e)
                  then have "e \<noteq> AssertLevelGtOne"
                    using findSpliceForLevel_err [of a2 key "prev1 ! i" i e] Some by simp
                  then show ?thesis
                    using h st gn cs res nok Some Inl by auto
                next
                  case (Inr pq)
                  obtain p q where pq: "pq = (p, q)"
                    by (cases pq)
                  have p0: "p \<noteq> 0"
                    using findSpliceForLevel_nonnull [of a2 key "prev1 ! i" i p q] Some Inr pq
                    by simp
                  show ?thesis
                  proof (cases "p = q")
                    case True
                    show ?thesis
                    proof (cases "i = 0")
                      case i0: True
                      show ?thesis
                      proof (cases "Add_overwrite a2 v ((prev1[i := p]) ! i)")
                        case (Inl e)
                        then show ?thesis
                          using h st gn cs res nok Some Inr pq True i0 Add_overwrite_err [OF Inl]
                          by (auto simp: Let_def)
                      next
                        case ow: (Inr a3)
                        then show ?thesis
                          using h st gn cs res nok Some Inr pq True i0 l1 e1
                          by (auto simp: Let_def)
                      qed
                    next
                      case False
                      then show ?thesis
                        using h st gn cs res nok Some Inr pq True by (auto simp: Let_def)
                    qed
                  next
                    case ne: False
                    have "f a2 ho key v x i (prev1[i := p]) (next1[i := q]) = Some y"
                      using h st gn cs res nok Some Inr pq ne by (simp add: Let_def)
                    from IH [OF this] p0 l1 len
                    have "y \<noteq> Inl AssertLevelGtOne
                      \<and> (\<forall>a' prev' nxt' b. y = Inr (a', prev', nxt', b) \<longrightarrow>
                            length prev' = length (prev1[i := p])
                            \<and> (\<forall>j. j \<noteq> i \<longrightarrow> prev' ! j = (prev1[i := p]) ! j))"
                      by simp
                    then show ?thesis
                      using l1 e1 by simp
                  qed
                qed
              qed
            qed
          qed
        qed
      qed
      show ?G
      proof (cases "getNode a (prev ! i)")
        case (Inl e)
        then show ?thesis
          using body getNode_err [OF Inl] by auto
      next
        case gp: (Inr pn)
        then have pn: "pn = prev ! i"
          by (rule getNode_Inr)
        show ?thesis
        proof (cases "pn = 0")
          case False
          show ?thesis
            by (rule rest [of prev nxt]) (use body gp False in simp_all)
        next
          case True
          then have i1: "1 < i"
            using nz pn by simp
          show ?thesis
          proof (cases "findSpliceForLevel a key ho i")
            case None
            then show ?thesis
              using body gp True i1 by auto
          next
            case (Some z)
            show ?thesis
            proof (cases z)
              case (Inl e)
              then have "e \<noteq> AssertLevelGtOne"
                using findSpliceForLevel_err [of a key ho i e] Some by simp
              then show ?thesis
                using body gp True i1 Some Inl by auto
            next
              case (Inr pq)
              obtain p q where pq: "pq = (p, q)"
                by (cases pq)
              show ?thesis
              proof (cases "p = q")
                case True
                then show ?thesis
                  using body gp \<open>pn = 0\<close> i1 Some Inr pq by auto
              next
                case False
                show ?thesis
                  by (rule rest [of "prev[i := p]" "nxt[i := q]"])
                    (use body gp \<open>pn = 0\<close> i1 Some Inr pq False in simp_all)
              qed
            qed
          qed
        qed
      qed
    qed
  qed
  then show "y \<noteq> Inl AssertLevelGtOne"
    and "y = Inr (a', prev', nxt', b) \<Longrightarrow>
         length prev' = length prev \<and> (\<forall>j. j \<noteq> i \<longrightarrow> prev' ! j = prev ! j)"
    using nz len by blast+
qed


lemma Add_link_no_level_assert:
  assumes "Add_link a ho key v x h i prev nxt = Some y"
    and "\<forall>j. i \<le> j \<and> j < h \<longrightarrow> prev ! j \<noteq> 0 \<or> 1 < j"
    and "h \<le> length prev"
  shows "y \<noteq> Inl AssertLevelGtOne"
  using assms
proof (induction a ho key v x h i prev nxt rule: Add_link.induct)
  case (1 a ho key v x h i prev nxt)
  show ?case
  proof (cases "i < h")
    case False
    then show ?thesis
      using "1.prems"(1) by (subst (asm) Add_link.simps) auto
  next
    case True
    then have nz: "prev ! i \<noteq> 0 \<or> 1 < i" and len: "i < length prev"
      using "1.prems" by auto
    show ?thesis
    proof (cases "Add_link_level a ho key v x i prev nxt")
      case None
      then show ?thesis
        using "1.prems"(1) True by (subst (asm) Add_link.simps) auto
    next
      case (Some z)
      note z = Add_link_level_prev [OF Some nz len]
      show ?thesis
      proof (cases z)
        case (Inl e)
        then show ?thesis
          using "1.prems"(1) True Some z(1) by (subst (asm) Add_link.simps) auto
      next
        case (Inr t)
        obtain a1 prev1 next1 returned where t: "t = (a1, prev1, next1, returned)"
          by (cases t)
        have p1: "length prev1 = length prev \<and> (\<forall>j. j \<noteq> i \<longrightarrow> prev1 ! j = prev ! j)"
          using z(2) [of a1 prev1 next1 returned] Inr t by simp
        show ?thesis
        proof (cases returned)
          case True
          then show ?thesis
            using "1.prems"(1) \<open>i < h\<close> Some Inr t by (subst (asm) Add_link.simps) auto
        next
          case False
          have r: "Add_link a1 ho key v x h (i + 1) prev1 next1 = Some y"
            using "1.prems"(1) \<open>i < h\<close> Some Inr t False by (subst (asm) Add_link.simps) auto
          have "\<forall>j. i + 1 \<le> j \<and> j < h \<longrightarrow> prev1 ! j \<noteq> 0 \<or> 1 < j"
            using "1.prems"(2) p1 by auto
          moreover have "h \<le> length prev1"
            using "1.prems"(3) p1 by simp
          ultimately show ?thesis
            using "1.IH" [OF \<open>i < h\<close> Some Inr, of a1 "(prev1, next1, returned)" prev1
                "(next1, returned)" next1 returned] t False r
            by simp
        qed
      qed
    qed
  qed
qed

lemma Add_descend_seed:
  assumes d: "Add_descend a key ((replicate (maxHeight + 1) 0)[listHeight := ho])
                (replicate (maxHeight + 1) 0) listHeight = Some (Inr (prev1, next1, None))"
    and lh: "listHeight \<le> maxHeight" and ho: "ho \<noteq> 0"
  shows "length prev1 = maxHeight + 1"
    and "\<forall>j \<le> maxHeight. (prev1 ! j = 0) = (listHeight < j)"
proof -
  let ?prev = "(replicate (maxHeight + 1) 0)[listHeight := ho]"
  have l: "listHeight < length ?prev"
    using lh by (simp del: replicate_Suc)
  note p = Add_descend_prev [OF d l]
  show "length prev1 = maxHeight + 1"
    using p(1) by (simp del: replicate_Suc)
  show "\<forall>j \<le> maxHeight. (prev1 ! j = 0) = (listHeight < j)"
  proof (intro allI impI)
    fix j
    assume j: "j \<le> maxHeight"
    show "(prev1 ! j = 0) = (listHeight < j)"
    proof (cases "j < listHeight")
      case True
      then show ?thesis
        using p(3) by simp
    next
      case False
      then have "prev1 ! j = ?prev ! j"
        using p(2) by simp
      then show ?thesis
        using False j lh ho by (cases "j = listHeight") (simp_all del: replicate_Suc)
    qed
  qed
qed

lemma Add_no_level_assert:
  assumes h: "1 \<le> height s" and ho: "headOffset s \<noteq> 0"
  shows "Add s e rnd \<noteq> Some (Inl AssertLevelGtOne)"
proof
  assume f: "Add s e rnd = Some (Inl AssertLevelGtOne)"
  then obtain a where a: "arena s = Some a"
    by (cases "arena s") (auto simp: Add_def)
  let ?key = "Key e"
  let ?v = "\<lparr>ValueStruct.Meta = Meta e, ValueStruct.Value = Value e,
             ValueStruct.ExpiresAt = ExpiresAt e, ValueStruct.Version = Version e\<rparr>"
  let ?prev = "(replicate (maxHeight + 1) 0)[height s := headOffset s]"
  let ?next = "replicate (maxHeight + 1) (0 :: 32 word)"
  have lh: "height s \<le> maxHeight"
    using f a by (auto simp: Add_def getHeight_def Let_def split: if_splits)
  then have f1: "(case Add_descend a ?key ?prev ?next (height s) of
             None \<Rightarrow> None
           | Some (Inl err) \<Rightarrow> Some (Inl err)
           | Some (Inr (prev1, next1, Some i)) \<Rightarrow>
               (case Add_overwrite a ?v (prev1 ! i) of
                  Inl err \<Rightarrow> Some (Inl err)
                | Inr a1 \<Rightarrow> Some (Inr (s\<lparr>arena := Some a1\<rparr>)))
           | Some (Inr (prev1, next1, None)) \<Rightarrow>
               let h = randomHeight rnd in
               (case newNode a ?key ?v h of
                  Inl err \<Rightarrow> Some (Inl err)
                | Inr (a1, x) \<Rightarrow>
                    let s1 = Add_raise_height (s\<lparr>arena := Some a1\<rparr>) h (getHeight s) in
                    (case Add_link a1 (headOffset s) ?key ?v x h 0 prev1 next1 of
                       None \<Rightarrow> None
                     | Some (Inl err) \<Rightarrow> Some (Inl err)
                     | Some (Inr a2) \<Rightarrow> Some (Inr (s1\<lparr>arena := Some a2\<rparr>)))))
          = Some (Inl AssertLevelGtOne)"
    using f a by (simp add: Add_def getHeight_def Let_def)
  show False
  proof (cases "Add_descend a ?key ?prev ?next (height s)")
    case None
    then show ?thesis
      using f1 by simp
  next
    case (Some z)
    show ?thesis
    proof (cases z)
      case (Inl err)
      then show ?thesis
        using f1 Some Add_descend_err [of a ?key ?prev ?next "height s" err] by simp
    next
      case (Inr t)
      obtain prev1 next1 r where t: "t = (prev1, next1, r)"
        by (cases t)
      show ?thesis
      proof (cases r)
        case (Some i)
        then show ?thesis
          using f1 \<open>Add_descend a ?key ?prev ?next (height s) = Some z\<close> Inr t
          by (auto dest!: Add_overwrite_err split: sum.splits)
      next
        case None
        have d: "Add_descend a ?key ?prev ?next (height s) = Some (Inr (prev1, next1, None))"
          using \<open>Add_descend a ?key ?prev ?next (height s) = Some z\<close> Inr t None by simp
        note sd = Add_descend_seed [OF d lh ho]
        have nz: "\<forall>j. 0 \<le> j \<and> j < randomHeight rnd \<longrightarrow> prev1 ! j \<noteq> 0 \<or> 1 < j"
        proof (intro allI impI)
          fix j
          assume "0 \<le> j \<and> j < randomHeight rnd"
          then have "j \<le> maxHeight"
            using randomHeight_bounds(2) [of rnd] by simp
          then have "(prev1 ! j = 0) = (height s < j)"
            using sd(2) by simp
          then show "prev1 ! j \<noteq> 0 \<or> 1 < j"
            using h by auto
        qed
        have len: "randomHeight rnd \<le> length prev1"
          using sd(1) randomHeight_bounds(2) [of rnd] by simp
        show ?thesis
        proof (cases "newNode a ?key ?v (randomHeight rnd)")
          case (Inl err)
          then show ?thesis
            using f1 d newNode_err [OF Inl] by (simp add: Let_def)
        next
          case (Inr u)
          obtain a1 x where u: "u = (a1, x)"
            by (cases u)
          have "Add_link a1 (headOffset s) ?key ?v x (randomHeight rnd) 0 prev1 next1
                = Some (Inl AssertLevelGtOne)"
            using f1 d Inr u by (auto simp: Let_def split: option.splits sum.splits)
          from Add_link_no_level_assert [OF this nz len] show ?thesis
            by simp
        qed
      qed
    qed
  qed
qed

lemma NewSkiplist_headOffset:
  assumes "NewSkiplist arenaSize = Inr s"
  shows "headOffset s = 8"
  using assms
  apply (auto simp: NewSkiplist_def newNode_def putNode_def allocate_def newArena_def Let_def
      getNodeOffset_def maxHeight_def nodeAlign_def MaxNodeSize_def offsetSize_def bindE_def
      dest!: getNode_Inr
      split: sum.splits prod.splits if_splits)
  done


lemma step_headOffset:
  assumes "step (s, w) x = Some (Inr (s', w'))"
  shows "headOffset s' = headOffset s"
proof (cases x)
  case (OpAdd e rnd)
  then have "Add s e rnd = Some (Inr s')"
    using assms by (simp split: option.splits sum.splits)
  from Add_fields(3) [OF this] show ?thesis .
qed (use assms in \<open>auto simp: NewSkipListIterator_def IncrRef_def Close_def DecrRef_def
      Let_def split: if_splits\<close>)

lemma step_no_level_assert:
  assumes "1 \<le> height s" and "headOffset s \<noteq> 0"
  shows "step (s, w) x \<noteq> Some (Inl AssertLevelGtOne)"
proof (cases x)
  case (OpAdd e rnd)
  then show ?thesis
    using Add_no_level_assert [OF assms, of e rnd]
    by (auto split: option.splits sum.splits)
qed simp_all

lemma exec_no_level_assert:
  assumes "1 \<le> height s" and "headOffset s \<noteq> 0"
  shows "exec (s, w) xs \<noteq> Some (Inl AssertLevelGtOne)"
  using assms
proof (induction xs arbitrary: s w)
  case Nil
  then show ?case
    by simp
next
  case (Cons x xs)
  show ?case
  proof (cases "step (s, w) x")
    case None
    then show ?thesis
      by simp
  next
    case (Some z)
    show ?thesis
    proof (cases z)
      case (Inl err)
      then show ?thesis
        using Some step_no_level_assert [OF Cons.prems, of w x] by auto
    next
      case (Inr c)
      obtain s' w' where c: "c = (s', w')"
        by (cases c)
      have st: "step (s, w) x = Some (Inr (s', w'))"
        using Some Inr c by simp
      have "1 \<le> height s'"
        using step_height(1) [OF st] Cons.prems(1) by simp
      moreover have "headOffset s' \<noteq> 0"
        using step_headOffset [OF st] Cons.prems(2) by simp
      ultimately have "exec (s', w') xs \<noteq> Some (Inl AssertLevelGtOne)"
        by (rule Cons.IH)
      then show ?thesis
        using st by simp
    qed
  qed
qed

lemma Add_link_level_nil:
  assumes "prev ! i = 0" and "\<not> 1 < i"
  shows "Add_link_level a ho key v x i prev nxt = Some (Inl AssertLevelGtOne)"
  using assms by (subst Add_link_level.simps) (simp add: getNode_def)

text \<open>
  C9: the assertion \<open>AssertTrue(i > 1)\<close> stands in the branch of the publish loop that
  is taken when \<open>prev[i]\<close> is null: at a level \<open>i\<close> the loop fails with this assertion
  exactly when \<open>prev[i]\<close> is 0 and \<open>i \<le> 1\<close>. \<open>prev[listHeight]\<close> is seeded with the
  head offset and the descent, when it finds no equal key, fills the levels below
  \<open>listHeight\<close> with offsets that are not 0: after it \<open>prev[j]\<close> is 0 exactly for the
  levels above \<open>listHeight\<close>. So on a list with height at least 1 and a head, \<open>Add\<close>
  never fails with this assertion, and no execution from a new list does.
\<close>

theorem Add_level_assertion_holds:
  "(i < length prev \<longrightarrow>
      (Add_link_level a ho key v x i prev nxt = Some (Inl AssertLevelGtOne))
      = (prev ! i = 0 \<and> i \<le> 1))
   \<and> (listHeight \<le> maxHeight \<and> ho' \<noteq> 0
        \<and> Add_descend a' key' ((replicate (maxHeight + 1) 0)[listHeight := ho'])
            (replicate (maxHeight + 1) 0) listHeight = Some (Inr (prev1, next1, None)) \<longrightarrow>
        (\<forall>j \<le> maxHeight. (prev1 ! j = 0) = (listHeight < j)))
   \<and> (1 \<le> height s \<and> headOffset s \<noteq> 0 \<longrightarrow> Add s e rnd \<noteq> Some (Inl AssertLevelGtOne))
   \<and> (NewSkiplist arenaSize = Inr s0 \<longrightarrow>
        1 \<le> height s0 \<and> headOffset s0 \<noteq> 0
        \<and> exec (s0, w) xs \<noteq> Some (Inl AssertLevelGtOne))"
proof (intro conjI impI)
  assume len: "i < length prev"
  show "(Add_link_level a ho key v x i prev nxt = Some (Inl AssertLevelGtOne))
      = (prev ! i = 0 \<and> i \<le> 1)"
  proof
    assume r: "Add_link_level a ho key v x i prev nxt = Some (Inl AssertLevelGtOne)"
    show "prev ! i = 0 \<and> i \<le> 1"
    proof (rule ccontr)
      assume "\<not> (prev ! i = 0 \<and> i \<le> 1)"
      then have "prev ! i \<noteq> 0 \<or> 1 < i"
        by auto
      from Add_link_level_prev(1) [OF r this len] show False
        by simp
    qed
  next
    assume "prev ! i = 0 \<and> i \<le> 1"
    then show "Add_link_level a ho key v x i prev nxt = Some (Inl AssertLevelGtOne)"
      using Add_link_level_nil [of prev i a ho key v x nxt] by simp
  qed
next
  assume "listHeight \<le> maxHeight \<and> ho' \<noteq> 0
        \<and> Add_descend a' key' ((replicate (maxHeight + 1) 0)[listHeight := ho'])
            (replicate (maxHeight + 1) 0) listHeight = Some (Inr (prev1, next1, None))"
  then show "\<forall>j \<le> maxHeight. (prev1 ! j = 0) = (listHeight < j)"
    using Add_descend_seed(2) [of a' key' listHeight ho' prev1 next1] by blast
next
  assume "1 \<le> height s \<and> headOffset s \<noteq> 0"
  then show "Add s e rnd \<noteq> Some (Inl AssertLevelGtOne)"
    using Add_no_level_assert [of s e rnd] by simp
next
  assume n: "NewSkiplist arenaSize = Inr s0"
  show h: "1 \<le> height s0"
    using NewSkiplist_fields(1) [OF n] by simp
  show o: "headOffset s0 \<noteq> 0"
    using NewSkiplist_headOffset [OF n] by simp
  show "exec (s0, w) xs \<noteq> Some (Inl AssertLevelGtOne)"
    using exec_no_level_assert [OF h o] .
qed

text \<open>The second insertion of the examples draws height 3 on a list of height 1: level
  1 is linked after the head seeded into \<open>prev[1]\<close>, level 2 goes through the branch.
  The descent shown is that of the first insertion.\<close>

theorem Add_level_assertion_holds_witness:
  "0 < length (replicate (maxHeight + 1) (0 :: 32 word))
   \<and> Add_link_level (the (arena list0)) 8 [] empty_ValueStruct 0 0
        (replicate (maxHeight + 1) 0) (replicate (maxHeight + 1) 0)
       = Some (Inl AssertLevelGtOne)
   \<and> (1 :: nat) \<le> maxHeight \<and> (8 :: 32 word) \<noteq> 0
   \<and> Add_descend (the (arena list0)) [1, 0, 0, 0, 0, 0, 0, 0, 5]
        ((replicate (maxHeight + 1) 0)[1 := 8]) (replicate (maxHeight + 1) 0) 1
       = Some (Inr ((replicate (maxHeight + 1) 0)[1 := 8, 0 := 8],
                    replicate (maxHeight + 1) 0, None))
   \<and> ((replicate (maxHeight + 1) 0)[1 := 8, 0 := 8]) ! 0 \<noteq> (0 :: 32 word)
   \<and> ((replicate (maxHeight + 1) 0)[1 := 8, 0 := 8]) ! 1 \<noteq> (0 :: 32 word)
   \<and> ((replicate (maxHeight + 1) 0)[1 := 8, 0 := 8]) ! 2 = (0 :: 32 word)
   \<and> ((replicate (maxHeight + 1) 0)[1 := 8, 0 := 8]) ! maxHeight = (0 :: 32 word)
   \<and> 1 \<le> height list1 \<and> headOffset list1 \<noteq> 0
   \<and> Add list1 (mkEntry [1, 0, 0, 0, 0, 0, 0, 0, 2] [66]) rnd_three = Some (Inr list2)
   \<and> height list2 = 3
   \<and> NewSkiplist 256 = Inr list0
   \<and> exec (list0, ()) [OpAdd (mkEntry [1, 0, 0, 0, 0, 0, 0, 0, 5] [65]) rnd_low,
        OpAdd (mkEntry [1, 0, 0, 0, 0, 0, 0, 0, 2] [66]) rnd_three]
       = Some (Inr (list2, ()))"
proof -
  let ?e1 = "mkEntry [1, 0, 0, 0, 0, 0, 0, 0, 5] [65]"
  let ?e2 = "mkEntry [1, 0, 0, 0, 0, 0, 0, 0, 2] [66]"
  let ?xs = "[OpAdd ?e1 rnd_low, OpAdd ?e2 rnd_three]"
  let ?z = "replicate (maxHeight + 1) (0 :: 32 word)"
  note T = Add_level_assertion_holds [of 0 ?z "the (arena list0)" 8 "[]" empty_ValueStruct 0 ?z
      1 8 "the (arena list0)" "[1, 0, 0, 0, 0, 0, 0, 0, 5]" "?z[1 := 8, 0 := 8]" ?z
      list1 ?e2 rnd_three 256 list0 "()" ?xs]
  have ex: "exec (list0, ()) ?xs = Some (Inr (list2, ()))"
    by (simp add: Add_list0 Add_list1)
  have r1: "randomHeight rnd_low = 1"
    by (simp add: randomHeight_def rnd_low_def randomHeight_loop.simps [of _ "Suc 0" 0]
        heightIncrease_def)
  have h0: "1 \<le> height list0 \<and> headOffset list0 \<noteq> 0"
    using T NewSkiplist_list0 by blast
  have h1: "1 \<le> height list1"
    using Add_fields(2) [OF Add_list0] h0 by auto
  have o1: "headOffset list1 \<noteq> 0"
    using Add_fields(3) [OF Add_list0] h0 by simp
  have l: "0 < length ?z"
    by (simp del: replicate_Suc)
  have z: "?z ! 0 = 0"
    by (simp del: replicate_Suc)
  have lv: "Add_link_level (the (arena list0)) 8 [] empty_ValueStruct 0 0 ?z ?z
       = Some (Inl AssertLevelGtOne)"
    using T l z by simp
  have m: "(1 :: nat) \<le> maxHeight"
    by (simp add: maxHeight_def)
  have d: "\<forall>j \<le> maxHeight. ((?z[1 := 8, 0 := 8]) ! j = (0 :: 32 word)) = (1 < j)"
    using T m list0_descend by simp
  have d0: "(?z[1 := 8, 0 := 8]) ! 0 \<noteq> 0" "(?z[1 := 8, 0 := 8]) ! 1 \<noteq> 0"
    "(?z[1 := 8, 0 := 8]) ! 2 = 0" "(?z[1 := 8, 0 := 8]) ! maxHeight = 0"
    using d m by (simp_all add: maxHeight_def del: replicate_Suc)
  from l lv m list0_descend d0 h1 o1 Add_list1 list2_height NewSkiplist_list0 ex
  show ?thesis
    by (simp del: replicate_Suc)
qed

section \<open>Search and keys of different lengths\<close>

lemma SameKey_length: "SameKey src dst \<Longrightarrow> length src = length dst"
  by (simp add: SameKey_def split: if_splits)

lemma Search_not_SameKey:
  assumes "findNear s key False True = Some (Inr (p, e))"
    and "stored_key s p = Inr k"
    and "\<not> SameKey key k"
  shows "Search s key = Some (Inr empty_ValueStruct)"
proof (cases "arena s")
  case None
  then show ?thesis
    using assms(2) by (simp add: stored_key_def)
next
  case (Some a)
  then have k: "node_key a p = Inr k"
    using assms(2) by (simp add: stored_key_def)
  then obtain nd where nd: "load a p = Inr nd" "getKey a (keyOffset nd) (keySize nd) = Inr k"
    by (auto simp: node_key_def bindE_def split: sum.splits)
  show ?thesis
    using assms(1,3) Some nd by (simp add: Search_def bindE_def)
qed

text \<open>
  C10: \<open>SameKey\<close> is false on keys of different lengths, whatever their user keys.
  So when the node that \<open>findNear\<close> returns to \<open>Search\<close> stores a key whose length
  is not the length of the key searched for, \<open>Search\<close> returns the empty value cell,
  also when both have the same user key.
\<close>

theorem SameKey_length_Search_empty:
  "(length src \<noteq> length dst \<longrightarrow> \<not> SameKey src dst)
   \<and> (findNear s key False True = Some (Inr (p, e)) \<and> stored_key s p = Inr k
        \<and> length k \<noteq> length key
        \<longrightarrow> Search s key = Some (Inr empty_ValueStruct))"
proof (intro conjI impI)
  assume "length src \<noteq> length dst"
  then show "\<not> SameKey src dst"
    using SameKey_length by blast
next
  assume h: "findNear s key False True = Some (Inr (p, e)) \<and> stored_key s p = Inr k
    \<and> length k \<noteq> length key"
  then have "\<not> SameKey key k"
    using SameKey_length [of key k] by auto
  with h show "Search s key = Some (Inr empty_ValueStruct)"
    using Search_not_SameKey by blast
qed

theorem SameKey_length_Search_empty_witness:
  "length [1 :: byte] \<noteq> length [1, 0, 0, 0, 0, 0, 0, 0, 2 :: byte]
   \<and> ParseKey [1] = ParseKey [1, 0, 0, 0, 0, 0, 0, 0, 2]
   \<and> \<not> SameKey [1] [1, 0, 0, 0, 0, 0, 0, 0, 2]
   \<and> findNear list3 [1] False True = Some (Inr (152, False))
   \<and> stored_key list3 152 = Inr [1, 0, 0, 0, 0, 0, 0, 0, 2]
   \<and> Search list3 [1] = Some (Inr empty_ValueStruct)"
proof -
  have p: "ParseKey [1] = ParseKey [1, 0, 0, 0, 0, 0, 0, 0, 2 :: byte]"
    by (simp add: ParseKey_def)
  show ?thesis
    using SameKey_length_Search_empty
      [of "[1]" "[1, 0, 0, 0, 0, 0, 0, 0, 2]" list3 "[1]" 152 False "[1, 0, 0, 0, 0, 0, 0, 0, 2]"]
      list3_search(1,2) p
    by simp
qed


end
